theory Spec2Isabelle
  imports Complex_Main "HOL-Library.AList" "HOL-Library.Sublist" "HOL-Library.Multiset"
    "HOL-Library.Monad_Syntax"
begin

section \<open>Data model of the graph visualization component\<close>

text \<open>
  The component \<^verbatim>\<open>GraphVisualization\<close> (src/components/graph-visualization.tsx) turns a
  list of triplets into nodes and edges, filters them, lays them out and animates them.
  JavaScript numbers are modelled as exact reals (counters as naturals); a division whose
  divisor is zero, which JavaScript answers with an infinity or NaN, is an explicit failure
  of the model (\<open>js_div\<close>). Strings are lists of characters (code units).
  Node objects are shared between the arrays \<^verbatim>\<open>allNodes\<close> and \<^verbatim>\<open>visibleNodes\<close> and are
  mutated in place, so they live in a store and the arrays hold references.
\<close>

datatype NodeType = Subject | Object

datatype LayoutType = Force | Circular | Hierarchical | Grid

record Triplet =
  subject :: string
  predicate :: string
  object :: string
  dataType :: "string option"

record Node =
  node_id :: string
  node_label :: string
  node_type :: NodeType
  node_x :: real
  node_y :: real
  node_vx :: "real option"
  node_vy :: "real option"
  connections :: nat
  node_visible :: bool
  clusterId :: "string option"

record Edge =
  source :: string
  target :: string
  edge_label :: string
  edge_predicate :: string
  edge_visible :: bool
  weight :: real

record GraphFilters =
  predicates :: "string list"
  nodeTypes :: "string list"
  minConnections :: nat
  maxConnections :: nat
  showLabels :: bool
  showIsolatedNodes :: bool
  clusterByPredicate :: bool
  layoutType :: LayoutType
  maxNodes :: nat
  searchTerm :: string

type_synonym ref = nat

type_synonym store = "ref \<Rightarrow> Node"

record State =
  heap :: store
  nextRef :: ref
  allNodes :: "ref list"
  allEdges :: "Edge list"
  visibleNodes :: "ref list"
  visibleEdges :: "Edge list"
  scale :: real
  offset :: "real \<times> real"
  isAnimating :: bool
  filters :: GraphFilters
  availablePredicates :: "string list"

definition initialFilters :: GraphFilters where
  "initialFilters =
     \<lparr>predicates = [], nodeTypes = [''subject'', ''object''], minConnections = 0,
      maxConnections = 100, showLabels = True, showIsolatedNodes = True,
      clusterByPredicate = False, layoutType = Force, maxNodes = 50, searchTerm = []\<rparr>"

text \<open>The state of a freshly mounted component; \<open>h\<close> is whatever the store holds.\<close>

definition initialState :: "store \<Rightarrow> State" where
  "initialState h =
     \<lparr>heap = h, nextRef = 0, allNodes = [], allEdges = [], visibleNodes = [],
      visibleEdges = [], scale = 1, offset = (0, 0), isAnimating = False,
      filters = initialFilters, availablePredicates = []\<rparr>"

section \<open>String helpers of the runtime\<close>

definition digitChar :: "nat \<Rightarrow> char" where
  "digitChar d = ''0123456789'' ! d"

text \<open>Decimal rendering of an array index, as the template literal does.\<close>

fun toString :: "nat \<Rightarrow> string" where
  "toString n = (if n < 10 then [digitChar n] else toString (n div 10) @ [digitChar (n mod 10)])"

declare toString.simps [simp del]

text \<open>\<^verbatim>\<open>s.split(c)\<close> for a one-character separator.\<close>

fun split_js :: "char \<Rightarrow> string \<Rightarrow> string list" where
  "split_js c [] = [[]]"
| "split_js c (x # xs) =
     (if x = c then [] # split_js c xs
      else (case split_js c xs of [] \<Rightarrow> [[x]] | p # ps \<Rightarrow> (x # p) # ps))"

text \<open>\<^verbatim>\<open>a || b\<close> on strings: the empty string is falsy.\<close>

definition orElse :: "string \<Rightarrow> string \<Rightarrow> string" where
  "orElse a b = (if a = [] then b else a)"

text \<open>\<^verbatim>\<open>s.split("/").pop() || s\<close>\<close>

definition lastSegment :: "string \<Rightarrow> string" where
  "lastSegment s = orElse (last (split_js CHR ''/'' s)) s"

text \<open>ASCII model of \<^verbatim>\<open>toLowerCase\<close>.\<close>

definition lowerChar :: "char \<Rightarrow> char" where
  "lowerChar c =
     (if 65 \<le> (of_char c :: nat) \<and> (of_char c :: nat) \<le> 90 then char_of (of_char c + 32 :: nat) else c)"

definition toLowerCase :: "string \<Rightarrow> string" where
  "toLowerCase s = map lowerChar s"

text \<open>\<^verbatim>\<open>s.includes(t)\<close>: \<open>t\<close> occurs in \<open>s\<close> as a contiguous block.\<close>

fun includes_js :: "string \<Rightarrow> string \<Rightarrow> bool" where
  "includes_js [] t = (t = [])"
| "includes_js (x # xs) t = (prefix t (x # xs) \<or> includes_js xs t)"

text \<open>\<^verbatim>\<open>uri.startsWith("http://") || uri.startsWith("https://")\<close>, the test of \<^verbatim>\<open>shortenUri\<close>.\<close>

definition isHttpUri :: "string \<Rightarrow> bool" where
  "isHttpUri uri = (prefix ''http://'' uri \<or> prefix ''https://'' uri)"

definition shortenUri :: "string \<Rightarrow> string" where
  "shortenUri uri = (if isHttpUri uri then orElse (last (split_js CHR ''/'' uri)) uri else uri)"

section \<open>Graph build effect\<close>

text \<open>
  The loop state of the build effect: the insertion-ordered \<^verbatim>\<open>Map\<close> of nodes, the edge
  array, the insertion-ordered \<^verbatim>\<open>Set\<close> of predicates, and how many times
  \<^verbatim>\<open>Math.random()\<close> has been called (the random source is a parameter \<open>rnd\<close>).
\<close>

record BuildState =
  nodeMap :: "(string \<times> Node) list"
  edgeList :: "Edge list"
  predicateSet :: "string list"
  randomCalls :: nat

definition emptyBuild :: BuildState where
  "emptyBuild = \<lparr>nodeMap = [], edgeList = [], predicateSet = [], randomCalls = 0\<rparr>"

definition mapHas :: "(string \<times> Node) list \<Rightarrow> string \<Rightarrow> bool" where
  "mapHas m k = (k \<in> fst ` set m)"

definition setAdd :: "string \<Rightarrow> string list \<Rightarrow> string list" where
  "setAdd p ps = (if p \<in> set ps then ps else ps @ [p])"

definition objectId :: "string \<Rightarrow> nat \<Rightarrow> string" where
  "objectId obj index = obj @ ''_'' @ toString index"

definition objectLabel :: "string \<Rightarrow> string" where
  "objectLabel obj = (if length obj > 20 then take 20 obj @ ''...'' else obj)"

definition subjectNode :: "(nat \<Rightarrow> real) \<Rightarrow> nat \<Rightarrow> Triplet \<Rightarrow> Node" where
  "subjectNode rnd k t =
     \<lparr>node_id = subject t, node_label = lastSegment (subject t), node_type = Subject,
      node_x = rnd k * 400, node_y = rnd (k + 1) * 400, node_vx = None, node_vy = None,
      connections = 0, node_visible = True, clusterId = Some (predicate t)\<rparr>"

definition objectNode :: "(nat \<Rightarrow> real) \<Rightarrow> nat \<Rightarrow> Triplet \<Rightarrow> nat \<Rightarrow> Node" where
  "objectNode rnd k t index =
     \<lparr>node_id = objectId (object t) index, node_label = objectLabel (object t),
      node_type = Object,
      node_x = rnd k * 400, node_y = rnd (k + 1) * 400, node_vx = None, node_vy = None,
      connections = 0, node_visible = True, clusterId = Some (predicate t)\<rparr>"

definition tripletEdge :: "Triplet \<Rightarrow> nat \<Rightarrow> Edge" where
  "tripletEdge t index =
     \<lparr>source = subject t, target = objectId (object t) index,
      edge_label = lastSegment (predicate t), edge_predicate = predicate t,
      edge_visible = True, weight = 1\<rparr>"

definition increment :: "Node \<Rightarrow> Node" where
  "increment n = n\<lparr>connections := connections n + 1\<rparr>"

definition addSubject :: "(nat \<Rightarrow> real) \<Rightarrow> Triplet \<Rightarrow> BuildState \<Rightarrow> BuildState" where
  "addSubject rnd t b =
     (if \<not> mapHas (nodeMap b) (subject t)
      then b\<lparr>nodeMap := AList.update (subject t) (subjectNode rnd (randomCalls b) t) (nodeMap b),
             randomCalls := randomCalls b + 2\<rparr>
      else b)"

definition addObject :: "(nat \<Rightarrow> real) \<Rightarrow> Triplet \<Rightarrow> nat \<Rightarrow> BuildState \<Rightarrow> BuildState" where
  "addObject rnd t index b =
     (if \<not> mapHas (nodeMap b) (objectId (object t) index)
      then b\<lparr>nodeMap := AList.update (objectId (object t) index)
                          (objectNode rnd (randomCalls b) t index) (nodeMap b),
             randomCalls := randomCalls b + 2\<rparr>
      else b)"

text \<open>The body of \<^verbatim>\<open>triplets.forEach((triplet, index) => ...)\<close>.\<close>

definition addTriplet :: "(nat \<Rightarrow> real) \<Rightarrow> Triplet \<Rightarrow> nat \<Rightarrow> BuildState \<Rightarrow> BuildState" where
  "addTriplet rnd t index b =
     (let b1 = b\<lparr>predicateSet := setAdd (predicate t) (predicateSet b)\<rparr>;
          b2 = addSubject rnd t b1;
          b3 = addObject rnd t index b2;
          b4 = b3\<lparr>nodeMap := AList.map_entry (subject t) increment (nodeMap b3)\<rparr>;
          b5 = b4\<lparr>nodeMap := AList.map_entry (objectId (object t) index) increment (nodeMap b4)\<rparr>
      in b5\<lparr>edgeList := edgeList b5 @ [tripletEdge t index]\<rparr>)"

text \<open>\<^verbatim>\<open>xs.forEach((x, index) => ...)\<close> threading a state, counting from \<open>i\<close>.\<close>

fun forEachIndexed :: "('a \<Rightarrow> nat \<Rightarrow> 's \<Rightarrow> 's) \<Rightarrow> 'a list \<Rightarrow> nat \<Rightarrow> 's \<Rightarrow> 's" where
  "forEachIndexed f [] i s = s"
| "forEachIndexed f (x # xs) i s = forEachIndexed f xs (Suc i) (f x i s)"

definition buildGraph :: "(nat \<Rightarrow> real) \<Rightarrow> Triplet list \<Rightarrow> BuildState" where
  "buildGraph rnd triplets = forEachIndexed (addTriplet rnd) triplets 0 emptyBuild"

text \<open>Fresh objects for the node values of the map, in insertion order.\<close>

definition allocate :: "Node list \<Rightarrow> ref \<Rightarrow> store \<Rightarrow> store" where
  "allocate ns base h = (\<lambda>r. if base \<le> r \<and> r < base + length ns then ns ! (r - base) else h r)"

text \<open>
  The effect run when \<^verbatim>\<open>triplets\<close> changes. It returns early on the empty list, before
  any state setter is called.
\<close>

definition graphBuildEffect :: "(nat \<Rightarrow> real) \<Rightarrow> Triplet list \<Rightarrow> State \<Rightarrow> State" where
  "graphBuildEffect rnd triplets st =
     (if length triplets = 0 then st
      else
        (let b = buildGraph rnd triplets;
             ns = map snd (nodeMap b)
         in st\<lparr>heap := allocate ns (nextRef st) (heap st),
               nextRef := nextRef st + length ns,
               allNodes := [nextRef st ..< nextRef st + length ns],
               allEdges := edgeList b,
               availablePredicates := predicateSet b,
               filters := (filters st)\<lparr>predicates := predicateSet b\<rparr>\<rparr>))"

section \<open>Layouts\<close>

definition setPosition :: "ref \<Rightarrow> real \<Rightarrow> real \<Rightarrow> store \<Rightarrow> store" where
  "setPosition node a b h = h(node := (h node)\<lparr>node_x := a, node_y := b\<rparr>)"

definition applyLayout :: "store \<Rightarrow> ref list \<Rightarrow> Edge list \<Rightarrow> LayoutType \<Rightarrow> store" where
  "applyLayout h nodes edges lt =
     (let centerX = 200; centerY = 200; radius = 150
      in case lt of
           Circular \<Rightarrow>
             forEachIndexed
               (\<lambda>node index.
                  let angle = (2 * pi * real index) / real (length nodes)
                  in setPosition node (centerX + radius * cos angle) (centerY + radius * sin angle))
               nodes 0 h
         | Grid \<Rightarrow>
             (let cols = nat \<lceil>sqrt (real (length nodes))\<rceil>
              in forEachIndexed
                   (\<lambda>node index.
                      setPosition node (real (index mod cols) * 80 + 50)
                        (real (index div cols) * 80 + 50))
                   nodes 0 h)
         | Hierarchical \<Rightarrow>
             (let subjects = filter (\<lambda>n. node_type (h n) = Subject) nodes;
                  objects = filter (\<lambda>n. node_type (h n) = Object) nodes;
                  h1 = forEachIndexed
                         (\<lambda>node index. setPosition node (real ((index * 100) mod 400) + 50) 100)
                         subjects 0 h
              in forEachIndexed
                   (\<lambda>node index. setPosition node (real ((index * 100) mod 400) + 50) 300)
                   objects 0 h1)
         | Force \<Rightarrow> h)"

section \<open>Filter effect\<close>

definition typeName :: "NodeType \<Rightarrow> string" where
  "typeName t = (case t of Subject \<Rightarrow> ''subject'' | Object \<Rightarrow> ''object'')"

text \<open>The callback of \<^verbatim>\<open>allNodes.filter\<close>.\<close>

definition nodePasses :: "GraphFilters \<Rightarrow> Node \<Rightarrow> bool" where
  "nodePasses f node =
     (if typeName (node_type node) \<notin> set (nodeTypes f) then False
      else if connections node < minConnections f \<or> connections node > maxConnections f then False
      else if searchTerm f \<noteq> [] \<and>
              \<not> includes_js (toLowerCase (node_label node)) (toLowerCase (searchTerm f)) then False
      else True)"

definition hasNodeId :: "store \<Rightarrow> ref list \<Rightarrow> string \<Rightarrow> bool" where
  "hasNodeId h nodes i = (\<exists>n \<in> set nodes. node_id (h n) = i)"

text \<open>The callback of \<^verbatim>\<open>allEdges.filter\<close>.\<close>

definition edgePasses :: "GraphFilters \<Rightarrow> store \<Rightarrow> ref list \<Rightarrow> Edge \<Rightarrow> bool" where
  "edgePasses f h filteredNodes edge =
     (if edge_predicate edge \<notin> set (predicates f) then False
      else hasNodeId h filteredNodes (source edge) \<and> hasNodeId h filteredNodes (target edge))"

definition connectedNodeIds :: "Edge list \<Rightarrow> string set" where
  "connectedNodeIds es = set (concat (map (\<lambda>e. [source e, target e]) es))"

text \<open>
  \<^verbatim>\<open>Array.prototype.sort\<close> with a comparator is stable; for a comparator that orders by
  a key its result is the stable sort, written here as insertion from the right.
\<close>

fun insert_js :: "('a \<Rightarrow> 'a \<Rightarrow> int) \<Rightarrow> 'a \<Rightarrow> 'a list \<Rightarrow> 'a list" where
  "insert_js cmp x [] = [x]"
| "insert_js cmp x (y # ys) = (if cmp x y \<le> 0 then x # y # ys else y # insert_js cmp x ys)"

definition sort_js :: "('a \<Rightarrow> 'a \<Rightarrow> int) \<Rightarrow> 'a list \<Rightarrow> 'a list" where
  "sort_js cmp xs = foldr (insert_js cmp) xs []"

text \<open>\<^verbatim>\<open>(a, b) => b.connections - a.connections\<close>\<close>

definition byConnections :: "store \<Rightarrow> ref \<Rightarrow> ref \<Rightarrow> int" where
  "byConnections h a b = int (connections (h b)) - int (connections (h a))"

text \<open>Steps of the filter effect before the node cap: the nodes and edges that survive.\<close>

definition passingNodes :: "State \<Rightarrow> ref list" where
  "passingNodes st = filter (\<lambda>n. nodePasses (filters st) (heap st n)) (allNodes st)"

definition passingEdges :: "State \<Rightarrow> Edge list" where
  "passingEdges st = filter (edgePasses (filters st) (heap st) (passingNodes st)) (allEdges st)"

definition survivingNodes :: "State \<Rightarrow> ref list" where
  "survivingNodes st =
     (if \<not> showIsolatedNodes (filters st)
      then filter (\<lambda>n. node_id (heap st n) \<in> connectedNodeIds (passingEdges st)) (passingNodes st)
      else passingNodes st)"

definition cappedNodes :: "State \<Rightarrow> ref list" where
  "cappedNodes st =
     (if length (survivingNodes st) > maxNodes (filters st)
      then take (maxNodes (filters st)) (sort_js (byConnections (heap st)) (survivingNodes st))
      else survivingNodes st)"

definition cappedEdges :: "State \<Rightarrow> Edge list" where
  "cappedEdges st =
     (if length (survivingNodes st) > maxNodes (filters st)
      then (let visibleNodeIds = set (map (\<lambda>n. node_id (heap st n)) (cappedNodes st))
            in filter (\<lambda>edge. source edge \<in> visibleNodeIds \<and> target edge \<in> visibleNodeIds)
                 (passingEdges st))
      else passingEdges st)"

definition filterEffect :: "State \<Rightarrow> State" where
  "filterEffect st =
     st\<lparr>heap := applyLayout (heap st) (cappedNodes st) (cappedEdges st) (layoutType (filters st)),
        visibleNodes := cappedNodes st,
        visibleEdges := cappedEdges st\<rparr>"

section \<open>Force simulation\<close>

text \<open>Division as JavaScript evaluates it, with the non-finite outcome made explicit.\<close>

definition js_div :: "real \<Rightarrow> real \<Rightarrow> real option" where
  "js_div a b = (if b = 0 then None else Some (a / b))"

text \<open>\<^verbatim>\<open>v || 0\<close> on an optional number.\<close>

definition orZero :: "real option \<Rightarrow> real" where
  "orZero v = (case v of None \<Rightarrow> 0 | Some r \<Rightarrow> r)"

text \<open>A loop whose body may fail.\<close>

fun forEachM :: "('a \<Rightarrow> 's \<Rightarrow> 's option) \<Rightarrow> 'a list \<Rightarrow> 's \<Rightarrow> 's option" where
  "forEachM f [] s = Some s"
| "forEachM f (x # xs) s = (case f x s of None \<Rightarrow> None | Some s' \<Rightarrow> forEachM f xs s')"

text \<open>
  Repulsion of \<open>node\<close> by \<open>other\<close>. Reading a velocity that was never assigned gives
  \<open>None\<close>, as adding to \<^verbatim>\<open>undefined\<close> gives NaN.
\<close>

definition repel :: "ref \<Rightarrow> ref \<Rightarrow> store \<Rightarrow> store option" where
  "repel node other h =
     (if node_id (h node) \<noteq> node_id (h other) then
        (let dx = node_x (h node) - node_x (h other);
             dy = node_y (h node) - node_y (h other);
             distance = sqrt (dx * dx + dy * dy)
         in if distance < 100 \<and> distance > 0 then
              do {
                force \<leftarrow> js_div 50 (distance * distance);
                ux \<leftarrow> js_div dx distance;
                vx \<leftarrow> node_vx (h node);
                uy \<leftarrow> js_div dy distance;
                vy \<leftarrow> node_vy (h node);
                Some (h(node := (h node)\<lparr>node_vx := Some (vx + ux * force),
                                          node_vy := Some (vy + uy * force)\<rparr>))
              }
            else Some h)
      else Some h)"

text \<open>Friction, pull to the centre, then repulsion by every node of the array.\<close>

definition applyForces :: "ref list \<Rightarrow> ref \<Rightarrow> store \<Rightarrow> store option" where
  "applyForces nodes node h =
     (let centerForce = 0.01;
          h1 = h(node := (h node)\<lparr>node_vx := Some (orZero (node_vx (h node)) * 0.9
                                                    + (200 - node_x (h node)) * centerForce),
                                   node_vy := Some (orZero (node_vy (h node)) * 0.9
                                                    + (200 - node_y (h node)) * centerForce)\<rparr>)
      in forEachM (repel node) nodes h1)"

text \<open>Attraction along one edge; \<^verbatim>\<open>nodes.find\<close> is \<open>find\<close>.\<close>

definition attract :: "ref list \<Rightarrow> Edge \<Rightarrow> store \<Rightarrow> store option" where
  "attract nodes edge h =
     (case (find (\<lambda>n. node_id (h n) = source edge) nodes,
            find (\<lambda>n. node_id (h n) = target edge) nodes) of
        (Some s, Some t) \<Rightarrow>
          (let dx = node_x (h t) - node_x (h s);
               dy = node_y (h t) - node_y (h s);
               distance = sqrt (dx * dx + dy * dy)
           in if distance > 0 then
                do {
                  ux \<leftarrow> js_div dx distance;
                  uy \<leftarrow> js_div dy distance;
                  Some
                    (let force = 0.02;
                         fx = ux * force;
                         fy = uy * force;
                         h1 = h(s := (h s)\<lparr>node_vx := Some (orZero (node_vx (h s)) + fx),
                                           node_vy := Some (orZero (node_vy (h s)) + fy)\<rparr>)
                     in h1(t := (h1 t)\<lparr>node_vx := Some (orZero (node_vx (h1 t)) - fx),
                                        node_vy := Some (orZero (node_vy (h1 t)) - fy)\<rparr>))
                }
              else Some h)
      | _ \<Rightarrow> Some h)"

text \<open>Velocity integration and the clamp to the canvas.\<close>

definition integrate :: "ref \<Rightarrow> store \<Rightarrow> store" where
  "integrate node h =
     h(node := (h node)\<lparr>node_x := max 20 (min 380 (node_x (h node) + orZero (node_vx (h node)))),
                        node_y := max 20 (min 380 (node_y (h node) + orZero (node_vy (h node))))\<rparr>)"

text \<open>
  One call of \<^verbatim>\<open>runForceSimulation\<close>. \<open>None\<close> means that some arithmetic step left the
  finite numbers. Scheduling of the next animation frame is outside the model.
\<close>

definition runForceSimulation :: "State \<Rightarrow> State option" where
  "runForceSimulation st =
     (if layoutType (filters st) \<noteq> Force \<or> \<not> isAnimating st then Some st
      else
        (let nodes = visibleNodes st; edges = visibleEdges st
         in do {
              h1 \<leftarrow> forEachM (applyForces nodes) nodes (heap st);
              h2 \<leftarrow> forEachM (attract nodes) edges h1;
              Some (st\<lparr>heap := fold integrate nodes h2, visibleNodes := nodes\<rparr>)
            }))"

section \<open>Zoom\<close>

definition zoomIn :: "real \<Rightarrow> real" where
  "zoomIn prev = min (prev * 1.2) 3"

definition zoomOut :: "real \<Rightarrow> real" where
  "zoomOut prev = max (prev / 1.2) 0.3"

section \<open>Notions used in the statements and proofs\<close>

subsection \<open>The build loop\<close>

text \<open>
  The fields of a map entry that the loop never changes once the entry exists, the key an
  object node is stored under, and what holds of the loop state after \<open>j\<close> triplets.
\<close>

definition nodeCore :: "string \<times> Node \<Rightarrow> string \<times> string \<times> string \<times> NodeType" where
  "nodeCore e = (fst e, node_id (snd e), node_label (snd e), node_type (snd e))"

definition subjectCore :: "Triplet \<Rightarrow> string \<times> string \<times> string \<times> NodeType" where
  "subjectCore t = (subject t, subject t, lastSegment (subject t), Subject)"

definition objectCore :: "Triplet \<Rightarrow> nat \<Rightarrow> string \<times> string \<times> string \<times> NodeType" where
  "objectCore t i = (objectId (object t) i, objectId (object t) i, objectLabel (object t), Object)"

definition keyAt :: "Triplet list \<Rightarrow> nat \<Rightarrow> string" where
  "keyAt ts k = objectId (object (ts ! k)) k"

definition objectKeys :: "Triplet list \<Rightarrow> string list" where
  "objectKeys ts = map (keyAt ts) [0..<length ts]"

definition buildInv :: "Triplet list \<Rightarrow> nat \<Rightarrow> BuildState \<Rightarrow> bool" where
  "buildInv ts j b \<longleftrightarrow>
     fst ` set (nodeMap b) = subject ` set (take j ts) \<union> keyAt ts ` {..<j} \<and>
     distinct (map fst (nodeMap b)) \<and>
     set (map nodeCore (nodeMap b)) \<subseteq>
       subjectCore ` set (take j ts) \<union> (\<lambda>k. objectCore (ts ! k) k) ` {..<j} \<and>
     (\<forall>i<j. keyAt ts i \<notin> subject ` set (take (Suc i) ts) \<longrightarrow>
        objectCore (ts ! i) i \<in> set (map nodeCore (nodeMap b))) \<and>
     edgeList b = map (\<lambda>k. tripletEdge (ts ! k) k) [0..<j]"

subsection \<open>Layouts as store transformers\<close>

text \<open>
  A store transformer repositions the objects in \<open>S\<close> when it gives each of them a
  position that does not depend on the store, and leaves everything else as it is.
\<close>

definition repositions :: "(store \<Rightarrow> store) \<Rightarrow> ref set \<Rightarrow> bool" where
  "repositions T S \<longleftrightarrow>
     (\<forall>r \<in> S. \<exists>a b. \<forall>h. T h r = (h r)\<lparr>node_x := a, node_y := b\<rparr>) \<and>
     (\<forall>r. r \<notin> S \<longrightarrow> (\<forall>h. T h r = h r))"

text \<open>The fixed-list transformer of each layout that moves nodes.\<close>

definition layoutOn ::
  "LayoutType \<Rightarrow> ref list \<Rightarrow> ref list \<Rightarrow> ref list \<Rightarrow> store \<Rightarrow> store" where
  "layoutOn lt nodes subjects objects h =
     (case lt of
        Circular \<Rightarrow>
          forEachIndexed
            (\<lambda>node index.
               setPosition node (200 + 150 * cos ((2 * pi * real index) / real (length nodes)))
                 (200 + 150 * sin ((2 * pi * real index) / real (length nodes))))
            nodes 0 h
      | Grid \<Rightarrow>
          forEachIndexed
            (\<lambda>node index.
               setPosition node
                 (real (index mod nat \<lceil>sqrt (real (length nodes))\<rceil>) * 80 + 50)
                 (real (index div nat \<lceil>sqrt (real (length nodes))\<rceil>) * 80 + 50))
            nodes 0 h
      | Hierarchical \<Rightarrow>
          forEachIndexed
            (\<lambda>node index. setPosition node (real ((index * 100) mod 400) + 50) 300) objects 0
            (forEachIndexed
               (\<lambda>node index. setPosition node (real ((index * 100) mod 400) + 50) 100)
               subjects 0 h)
      | Force \<Rightarrow> h)"

subsection \<open>The simulation\<close>

definition onCanvas :: "store \<Rightarrow> ref \<Rightarrow> bool" where
  "onCanvas h n \<longleftrightarrow>
     20 \<le> node_x (h n) \<and> node_x (h n) \<le> 380 \<and> 20 \<le> node_y (h n) \<and> node_y (h n) \<le> 380"

definition hasVelocity :: "store \<Rightarrow> ref \<Rightarrow> bool" where
  "hasVelocity h n \<longleftrightarrow> node_vx (h n) \<noteq> None \<and> node_vy (h n) \<noteq> None"

subsection \<open>Concrete inputs\<close>

text \<open>
  A random source that always returns 0, a store of blank nodes, and the graph of the
  three facts \<open>(A, p1, x)\<close>, \<open>(A, p2, y)\<close>, \<open>(B, p1, x)\<close> under a cap of two nodes
  with the circular layout, and under the running force layout.
\<close>

definition noRandom :: "nat \<Rightarrow> real" where
  "noRandom k = 0"

definition blankNode :: Node where
  "blankNode =
     \<lparr>node_id = [], node_label = [], node_type = Subject, node_x = 0, node_y = 0,
      node_vx = None, node_vy = None, connections = 0, node_visible = False, clusterId = None\<rparr>"

definition blankStore :: store where
  "blankStore r = blankNode"

definition fact :: "string \<Rightarrow> string \<Rightarrow> string \<Rightarrow> Triplet" where
  "fact s p obj = \<lparr>subject = s, predicate = p, object = obj, dataType = None\<rparr>"

definition scenario :: "Triplet list" where
  "scenario = [fact ''A'' ''p1'' ''x'', fact ''A'' ''p2'' ''y'', fact ''B'' ''p1'' ''x'']"

definition builtState :: State where
  "builtState = graphBuildEffect noRandom scenario (initialState blankStore)"

definition capState :: State where
  "capState = builtState\<lparr>filters := (filters builtState)\<lparr>maxNodes := 2, layoutType := Circular\<rparr>\<rparr>"

definition mkNode :: "string \<Rightarrow> string \<Rightarrow> NodeType \<Rightarrow> nat \<Rightarrow> string \<Rightarrow> Node" where
  "mkNode i l t c p =
     \<lparr>node_id = i, node_label = l, node_type = t, node_x = 0, node_y = 0, node_vx = None,
      node_vy = None, connections = c, node_visible = True, clusterId = Some p\<rparr>"

definition mkEdge :: "string \<Rightarrow> string \<Rightarrow> string \<Rightarrow> Edge" where
  "mkEdge s t p =
     \<lparr>source = s, target = t, edge_label = p, edge_predicate = p, edge_visible = True, weight = 1\<rparr>"

definition forceState :: State where
  "forceState = (filterEffect builtState)\<lparr>isAnimating := True\<rparr>"

section \<open>Facts about the string helpers\<close>

lemma digitChar_mem: "d < 10 \<Longrightarrow> digitChar d \<in> set ''0123456789''"
  unfolding digitChar_def by (rule nth_mem) simp

lemma digitChar_not_underscore: "d < 10 \<Longrightarrow> digitChar d \<noteq> CHR ''_''"
  using digitChar_mem [of d] by auto

lemma digitChar_inj: "a < 10 \<Longrightarrow> b < 10 \<Longrightarrow> digitChar a = digitChar b \<Longrightarrow> a = b"
  unfolding digitChar_def
  by (subst (asm) nth_eq_iff_index_eq) simp_all

lemma toString_no_underscore: "CHR ''_'' \<notin> set (toString n)"
proof (induction n rule: toString.induct)
  case (1 n)
  show ?case
  proof (cases "n < 10")
    case True
    then show ?thesis
      using digitChar_not_underscore [of n] by (subst toString.simps) auto
  next
    case False
    moreover have "digitChar (n mod 10) \<noteq> CHR ''_''"
      by (rule digitChar_not_underscore) simp
    ultimately show ?thesis
      using "1.IH" by (subst toString.simps) auto
  qed
qed

lemma toString_nonempty: "toString n \<noteq> []"
  by (subst toString.simps) simp

lemma toString_inj: "toString n = toString m \<Longrightarrow> n = m"
proof (induction n arbitrary: m rule: toString.induct)
  case (1 n)
  show ?case
  proof (cases "n < 10")
    case small_n: True
    show ?thesis
    proof (cases "m < 10")
      case True
      with small_n "1.prems" show ?thesis
        by (simp add: toString.simps [of n] toString.simps [of m] digitChar_inj)
    next
      case False
      with small_n "1.prems" toString_nonempty [of "m div 10"] show ?thesis
        by (simp add: toString.simps [of n] toString.simps [of m] Cons_eq_append_conv)
    qed
  next
    case big_n: False
    show ?thesis
    proof (cases "m < 10")
      case True
      with big_n "1.prems" toString_nonempty [of "n div 10"] show ?thesis
        by (simp add: toString.simps [of n] toString.simps [of m] append_eq_Cons_conv)
    next
      case False
      with big_n "1.prems" have eq: "toString (n div 10) = toString (m div 10)"
        and d: "digitChar (n mod 10) = digitChar (m mod 10)"
        by (simp_all add: toString.simps [of n] toString.simps [of m])
      from "1.IH" [OF big_n eq] have "n div 10 = m div 10" .
      moreover from d have "n mod 10 = m mod 10"
        by (rule digitChar_inj [rotated 2]) simp_all
      ultimately show ?thesis
        by (metis div_mult_mod_eq)
    qed
  qed
qed

lemma suffix_after_underscore:
  "CHR ''_'' \<notin> set d \<Longrightarrow> takeWhile (\<lambda>c. c \<noteq> CHR ''_'') (rev (a @ ''_'' @ d)) = rev d"
  by (auto simp: takeWhile_tail)

lemma objectId_inj: "objectId a i = objectId b j \<Longrightarrow> a = b \<and> i = j"
proof -
  assume eq: "objectId a i = objectId b j"
  have "rev (toString i) = takeWhile (\<lambda>c. c \<noteq> CHR ''_'') (rev (objectId a i))"
    unfolding objectId_def by (rule suffix_after_underscore [symmetric]) (rule toString_no_underscore)
  also have "\<dots> = takeWhile (\<lambda>c. c \<noteq> CHR ''_'') (rev (objectId b j))"
    by (simp only: eq)
  also have "\<dots> = rev (toString j)"
    unfolding objectId_def by (rule suffix_after_underscore) (rule toString_no_underscore)
  finally have "i = j" by (simp add: toString_inj)
  with eq show ?thesis by (simp add: objectId_def)
qed

subsection \<open>Splitting at a separator\<close>

lemma split_js_nonempty: "split_js c s \<noteq> []"
  by (induction s) (auto split: list.splits)

lemma split_js_no_sep: "c \<notin> set s \<Longrightarrow> split_js c s = [s]"
  by (induction s) auto

lemma length_split_js: "length (split_js c s) = Suc (length (filter (\<lambda>x. x = c) s))"
  by (induction s) (auto split: list.splits)

lemma last_split_js_append: "last (split_js c (a @ c # b)) = last (split_js c b)"
proof (induction a)
  case Nil
  show ?case by (simp add: split_js_nonempty)
next
  case (Cons x a)
  show ?case
  proof (cases "x = c")
    case True
    then show ?thesis using Cons.IH by (simp add: split_js_nonempty)
  next
    case False
    obtain p ps where sp: "split_js c (a @ c # b) = p # ps"
      using split_js_nonempty [of c "a @ c # b"] by (cases "split_js c (a @ c # b)") auto
    have "length (split_js c (a @ c # b)) \<ge> 2"
      by (simp add: length_split_js)
    with sp have "ps \<noteq> []" by auto
    with False sp Cons.IH show ?thesis by simp
  qed
qed

lemma last_split_js: "last (split_js c s) = rev (takeWhile (\<lambda>x. x \<noteq> c) (rev s))"
proof (cases "c \<in> set s")
  case True
  then obtain a b where s: "s = a @ c # b" and b: "c \<notin> set b"
    by (auto dest: split_list_last)
  have "takeWhile (\<lambda>x. x \<noteq> c) (rev b @ c # rev a) = rev b"
    using b by (auto simp: takeWhile_tail)
  then show ?thesis
    using b by (simp add: s last_split_js_append split_js_no_sep)
next
  case False
  then have "takeWhile (\<lambda>x. x \<noteq> c) (rev s) = rev s"
    by (auto simp: takeWhile_eq_all_conv)
  then have "rev (takeWhile (\<lambda>x. x \<noteq> c) (rev s)) = s"
    by (simp only: rev_rev_ident)
  moreover have "last (split_js c s) = s"
    by (simp add: split_js_no_sep [OF False])
  ultimately show ?thesis by simp
qed

subsection \<open>Loops\<close>

lemma forEachIndexed_invariant:
  assumes "I i s"
    and "\<And>j s. i \<le> j \<Longrightarrow> j < i + length xs \<Longrightarrow> I j s \<Longrightarrow> I (Suc j) (f (xs ! (j - i)) j s)"
  shows "I (i + length xs) (forEachIndexed f xs i s)"
  using assms
proof (induction xs arbitrary: i s)
  case Nil
  then show ?case by simp
next
  case (Cons x xs)
  have first: "I (Suc i) (f x i s)"
    using Cons.prems(2) [of i s] Cons.prems(1) by simp
  have "I (Suc i + length xs) (forEachIndexed f xs (Suc i) (f x i s))"
  proof (rule Cons.IH [OF first])
    fix j s'
    assume "Suc i \<le> j" "j < Suc i + length xs" "I j s'"
    then show "I (Suc j) (f (xs ! (j - Suc i)) j s')"
      using Cons.prems(2) [of j s'] by (simp add: Suc_diff_le)
  qed
  then show ?case by simp
qed

section \<open>Facts about the graph build effect\<close>

subsection \<open>The node map, seen through the fields that never change\<close>

lemma update_absent: "k \<notin> fst ` set al \<Longrightarrow> AList.update k v al = al @ [(k, v)]"
  by (induction al) auto

lemma core_map_entry_increment:
  "map nodeCore (AList.map_entry k increment m) = map nodeCore m"
  by (induction m) (auto simp: nodeCore_def increment_def)

lemma keys_of_cores: "fst ` set (map nodeCore m) = fst ` set m"
  by (force simp: nodeCore_def)

lemma core_addSubject:
  "map nodeCore (nodeMap (addSubject rnd t b)) =
     map nodeCore (nodeMap b) @ (if subject t \<in> fst ` set (nodeMap b) then [] else [subjectCore t])"
  by (simp add: addSubject_def mapHas_def update_absent nodeCore_def subjectCore_def
      subjectNode_def)

lemma core_addObject:
  "map nodeCore (nodeMap (addObject rnd t i b)) =
     map nodeCore (nodeMap b) @
       (if objectId (object t) i \<in> fst ` set (nodeMap b) then [] else [objectCore t i])"
  by (simp add: addObject_def mapHas_def update_absent nodeCore_def objectCore_def
      objectNode_def)

lemma keys_addSubject:
  "fst ` set (nodeMap (addSubject rnd t b)) = insert (subject t) (fst ` set (nodeMap b))"
  by (auto simp: addSubject_def mapHas_def dom_update)

lemma nodeMap_addTriplet:
  "nodeMap (addTriplet rnd t i b) =
     AList.map_entry (objectId (object t) i) increment
       (AList.map_entry (subject t) increment
          (nodeMap (addObject rnd t i (addSubject rnd t
             (b\<lparr>predicateSet := setAdd (predicate t) (predicateSet b)\<rparr>)))))"
  by (simp add: addTriplet_def Let_def)

lemma core_addTriplet:
  "map nodeCore (nodeMap (addTriplet rnd t i b)) =
     map nodeCore (nodeMap b)
       @ (if subject t \<in> fst ` set (nodeMap b) then [] else [subjectCore t])
       @ (if objectId (object t) i \<in> insert (subject t) (fst ` set (nodeMap b)) then []
          else [objectCore t i])"
  by (simp only: nodeMap_addTriplet core_map_entry_increment core_addObject core_addSubject
      keys_addSubject)
    (simp add: addSubject_def)

lemma edgeList_addSubject: "edgeList (addSubject rnd t b) = edgeList b"
  by (simp add: addSubject_def)

lemma edgeList_addObject: "edgeList (addObject rnd t i b) = edgeList b"
  by (simp add: addObject_def)

lemma edgeList_addTriplet: "edgeList (addTriplet rnd t i b) = edgeList b @ [tripletEdge t i]"
  by (simp add: addTriplet_def Let_def edgeList_addSubject edgeList_addObject)


subsection \<open>What holds after the first \<open>j\<close> triplets\<close>

lemma keyAt_inj: "keyAt ts i = keyAt ts j \<Longrightarrow> i = j"
  unfolding keyAt_def by (drule objectId_inj) simp

lemma distinct_objectKeys: "distinct (objectKeys ts)"
  unfolding objectKeys_def by (auto simp: distinct_map intro!: inj_onI dest: keyAt_inj)

lemma set_objectKeys: "set (objectKeys ts) = keyAt ts ` {..<length ts}"
  unfolding objectKeys_def by (simp add: atLeast0LessThan)

lemma map_fst_cores: "map fst (map nodeCore m) = map fst m"
  by (simp add: nodeCore_def)

lemma buildInv_empty: "buildInv ts 0 emptyBuild"
  by (simp add: buildInv_def emptyBuild_def)

lemma buildInv_step:
  assumes inv: "buildInv ts j b" and j: "j < length ts"
  shows "buildInv ts (Suc j) (addTriplet rnd (ts ! j) j b)"
proof -
  let ?t = "ts ! j"
  let ?b' = "addTriplet rnd ?t j b"
  let ?K = "fst ` set (nodeMap b)"
  have take: "take (Suc j) ts = take j ts @ [?t]"
    using j by (simp add: take_Suc_conv_app_nth)
  have upto: "{..<Suc j} = insert j {..<j}"
    by auto
  have core: "map nodeCore (nodeMap ?b') =
     map nodeCore (nodeMap b)
       @ (if subject ?t \<in> ?K then [] else [subjectCore ?t])
       @ (if keyAt ts j \<in> insert (subject ?t) ?K then [] else [objectCore ?t j])"
    unfolding keyAt_def by (rule core_addTriplet)
  from inv have K: "?K = subject ` set (take j ts) \<union> keyAt ts ` {..<j}"
    and D: "distinct (map fst (nodeMap b))"
    and C: "set (map nodeCore (nodeMap b)) \<subseteq>
       subjectCore ` set (take j ts) \<union> (\<lambda>k. objectCore (ts ! k) k) ` {..<j}"
    and E: "\<forall>i<j. keyAt ts i \<notin> subject ` set (take (Suc i) ts) \<longrightarrow>
        objectCore (ts ! i) i \<in> set (map nodeCore (nodeMap b))"
    and G: "edgeList b = map (\<lambda>k. tripletEdge (ts ! k) k) [0..<j]"
    by (simp_all add: buildInv_def)
  have keys': "fst ` set (nodeMap ?b') = insert (keyAt ts j) (insert (subject ?t) ?K)"
  proof -
    have "fst ` set (nodeMap ?b') = fst ` set (map nodeCore (nodeMap ?b'))"
      by (simp only: keys_of_cores)
    also have "\<dots> = insert (keyAt ts j) (insert (subject ?t) ?K)"
      unfolding core using keys_of_cores [of "nodeMap b"]
      by (auto simp: subjectCore_def objectCore_def keyAt_def)
    finally show ?thesis .
  qed
  have K': "fst ` set (nodeMap ?b') = subject ` set (take (Suc j) ts) \<union> keyAt ts ` {..<Suc j}"
    unfolding keys' K take upto by auto
  have keysl: "map fst (nodeMap ?b') =
     map fst (nodeMap b)
       @ (if subject ?t \<in> ?K then [] else [subject ?t])
       @ (if keyAt ts j \<in> insert (subject ?t) ?K then [] else [keyAt ts j])"
  proof -
    have "map fst (nodeMap ?b') = map fst (map nodeCore (nodeMap ?b'))"
      by (simp only: map_fst_cores)
    also have "\<dots> = map fst (map nodeCore (nodeMap b))
       @ (if subject ?t \<in> ?K then [] else [subject ?t])
       @ (if keyAt ts j \<in> insert (subject ?t) ?K then [] else [keyAt ts j])"
      unfolding core by (simp add: subjectCore_def objectCore_def keyAt_def)
    finally show ?thesis by (simp only: map_fst_cores)
  qed
  have D': "distinct (map fst (nodeMap ?b'))"
    unfolding keysl using D by auto
  have C': "set (map nodeCore (nodeMap ?b')) \<subseteq>
       subjectCore ` set (take (Suc j) ts) \<union> (\<lambda>k. objectCore (ts ! k) k) ` {..<Suc j}"
    unfolding core take upto using C by auto
  have E': "\<forall>i<Suc j. keyAt ts i \<notin> subject ` set (take (Suc i) ts) \<longrightarrow>
        objectCore (ts ! i) i \<in> set (map nodeCore (nodeMap ?b'))"
  proof (intro allI impI)
    fix i
    assume i: "i < Suc j" and free: "keyAt ts i \<notin> subject ` set (take (Suc i) ts)"
    show "objectCore (ts ! i) i \<in> set (map nodeCore (nodeMap ?b'))"
    proof (cases "i = j")
      case True
      have "keyAt ts j \<notin> keyAt ts ` {..<j}"
        by (auto dest: keyAt_inj)
      moreover from free True have "keyAt ts j \<notin> subject ` set (take j ts)"
        and "keyAt ts j \<noteq> subject ?t"
        by (auto simp: take)
      ultimately have "keyAt ts j \<notin> insert (subject ?t) ?K"
        unfolding K by blast
      then show ?thesis
        unfolding core True by simp
    next
      case False
      with i have "i < j" by simp
      with E free have "objectCore (ts ! i) i \<in> set (map nodeCore (nodeMap b))"
        by blast
      then show ?thesis
        unfolding core by simp
    qed
  qed
  have G': "edgeList ?b' = map (\<lambda>k. tripletEdge (ts ! k) k) [0..<Suc j]"
    by (simp add: edgeList_addTriplet G)
  from K' D' C' E' G' show ?thesis
    unfolding buildInv_def by blast
qed

lemma buildInv_buildGraph: "buildInv ts (length ts) (buildGraph rnd ts)"
proof -
  have "buildInv ts (0 + length ts) (forEachIndexed (addTriplet rnd) ts 0 emptyBuild)"
    by (rule forEachIndexed_invariant [where I = "buildInv ts"])
      (simp_all add: buildInv_empty buildInv_step)
  then show ?thesis by (simp add: buildGraph_def)
qed

lemma edgeList_buildGraph:
  "edgeList (buildGraph rnd ts) = map (\<lambda>k. tripletEdge (ts ! k) k) [0..<length ts]"
  using buildInv_buildGraph [of ts rnd] by (simp add: buildInv_def)

lemma keys_buildGraph:
  "fst ` set (nodeMap (buildGraph rnd ts)) = set (map subject ts) \<union> set (objectKeys ts)"
  using buildInv_buildGraph [of ts rnd] by (simp add: buildInv_def set_objectKeys)

lemma length_nodeMap_buildGraph:
  "length (nodeMap (buildGraph rnd ts)) = card (set (map subject ts) \<union> set (objectKeys ts))"
proof -
  have "distinct (map fst (nodeMap (buildGraph rnd ts)))"
    using buildInv_buildGraph [of ts rnd] by (simp add: buildInv_def)
  then have "card (set (map fst (nodeMap (buildGraph rnd ts)))) = length (nodeMap (buildGraph rnd ts))"
    using distinct_card by fastforce
  then show ?thesis
    using keys_buildGraph [of rnd ts] by simp
qed

text \<open>
  The number of nodes the build loop creates: one per distinct subject and one per
  triplet, less the subjects that are spelled like an object key.
\<close>

lemma node_count_buildGraph:
  "length (nodeMap (buildGraph rnd ts)) + card (set (map subject ts) \<inter> set (objectKeys ts))
     = card (set (map subject ts)) + length ts"
proof -
  have "card (set (objectKeys ts)) = length ts"
    using distinct_card [OF distinct_objectKeys [of ts]] by (simp add: objectKeys_def)
  then show ?thesis
    using card_Un_Int [of "set (map subject ts)" "set (objectKeys ts)"]
    by (simp add: length_nodeMap_buildGraph)
qed

subsection \<open>From the loop to the component state\<close>

lemma map_allocate: "map (allocate ns base h) [base ..< base + length ns] = ns"
  by (rule nth_equalityI) (simp_all add: allocate_def)

lemma allocate_outside: "r < base \<Longrightarrow> allocate ns base h r = h r"
  by (simp add: allocate_def)

lemma graphBuildEffect_nodes:
  "ts \<noteq> [] \<Longrightarrow>
     map (heap (graphBuildEffect rnd ts st)) (allNodes (graphBuildEffect rnd ts st))
       = map snd (nodeMap (buildGraph rnd ts))"
  using map_allocate [of "map snd (nodeMap (buildGraph rnd ts))" "nextRef st" "heap st"]
  by (simp add: graphBuildEffect_def Let_def)

lemma graphBuildEffect_edges:
  "ts \<noteq> [] \<Longrightarrow> allEdges (graphBuildEffect rnd ts st) = edgeList (buildGraph rnd ts)"
  by (simp add: graphBuildEffect_def Let_def)

lemma graphBuildEffect_length_nodes:
  "ts \<noteq> [] \<Longrightarrow> length (allNodes (graphBuildEffect rnd ts st)) = length (nodeMap (buildGraph rnd ts))"
  by (simp add: graphBuildEffect_def Let_def)

lemma graphBuildEffect_distinct: "distinct (allNodes st) \<Longrightarrow> distinct (allNodes (graphBuildEffect rnd ts st))"
  by (simp add: graphBuildEffect_def Let_def)

lemma toString_digit: "n < 10 \<Longrightarrow> toString n = [digitChar n]"
  by (simp add: toString.simps)

lemma objectKeys_single: "objectKeys [fact s p obj] = [obj @ ''_0'']"
  by (simp add: objectKeys_def keyAt_def objectId_def toString_digit digitChar_def fact_def)

lemma heap_image_graphBuildEffect:
  assumes "ts \<noteq> []"
  shows "heap (graphBuildEffect rnd ts st) ` set (allNodes (graphBuildEffect rnd ts st))
           = snd ` set (nodeMap (buildGraph rnd ts))"
proof -
  have "set (map (heap (graphBuildEffect rnd ts st)) (allNodes (graphBuildEffect rnd ts st)))
          = set (map snd (nodeMap (buildGraph rnd ts)))"
    by (simp only: graphBuildEffect_nodes [OF assms])
  then show ?thesis by simp
qed

lemma object_entries_buildGraph:
  assumes "e \<in> set (nodeMap (buildGraph rnd ts))" and "node_type (snd e) = Object"
  shows "\<exists>i<length ts. nodeCore e = objectCore (ts ! i) i"
proof -
  have "nodeCore e \<in> subjectCore ` set ts \<union> (\<lambda>k. objectCore (ts ! k) k) ` {..<length ts}"
    using buildInv_buildGraph [of ts rnd] assms(1) by (auto simp: buildInv_def)
  moreover have "nodeCore e \<notin> subjectCore ` set ts"
    using assms(2) by (auto simp: nodeCore_def subjectCore_def)
  ultimately show ?thesis by auto
qed

lemma object_entry_created:
  assumes "i < length ts" and "keyAt ts i \<notin> subject ` set (take (Suc i) ts)"
  shows "\<exists>e \<in> set (nodeMap (buildGraph rnd ts)). nodeCore e = objectCore (ts ! i) i"
proof -
  have "objectCore (ts ! i) i \<in> nodeCore ` set (nodeMap (buildGraph rnd ts))"
    using buildInv_buildGraph [of ts rnd] assms by (simp add: buildInv_def)
  then show ?thesis by (auto simp: image_iff)
qed

lemma length_objectLabel: "length (objectLabel obj) \<le> 23"
  by (simp add: objectLabel_def)

lemma lastSegment_eq:
  "lastSegment s =
     (let seg = rev (takeWhile (\<lambda>c. c \<noteq> CHR ''/'') (rev s)) in if seg = [] then s else seg)"
  by (simp add: lastSegment_def orElse_def last_split_js Let_def)

lemma node_count_without_collision:
  assumes "ts \<noteq> []" and "set (map subject ts) \<inter> set (objectKeys ts) = {}"
  shows "length (allNodes (graphBuildEffect rnd ts st)) = card (set (map subject ts)) + length ts"
    and "length (allEdges (graphBuildEffect rnd ts st)) = length ts"
  using node_count_buildGraph [of rnd ts] assms
  by (simp_all add: graphBuildEffect_length_nodes graphBuildEffect_edges edgeList_buildGraph)

section \<open>The claims about the graph build effect\<close>

text \<open>
  C1. The claim is that every fact list yields one edge per fact and one node per distinct
  subject plus one object node per fact. Subjects and object keys share one map, so a
  subject spelled like an object key (\<open>object_index\<close>) is merged with that object node:
  the single fact \<open>(x_0, p, x)\<close> yields one node, a self-loop, where the claim counts two.
  (Lemma \<open>node_count_without_collision\<close> shows the count holds for every non-empty list
  without such a collision.)
\<close>

theorem key_collision_merges_nodes:
  "length (allNodes (graphBuildEffect noRandom [fact ''x_0'' ''p'' ''x''] (initialState blankStore))) = 1
   \<and> length (allEdges (graphBuildEffect noRandom [fact ''x_0'' ''p'' ''x''] (initialState blankStore))) = 1
   \<and> card (set (map subject [fact ''x_0'' ''p'' ''x''])) + length [fact ''x_0'' ''p'' ''x''] = 2
   \<and> source (allEdges (graphBuildEffect noRandom [fact ''x_0'' ''p'' ''x''] (initialState blankStore)) ! 0)
       = target (allEdges (graphBuildEffect noRandom [fact ''x_0'' ''p'' ''x''] (initialState blankStore)) ! 0)"
proof -
  have "length (nodeMap (buildGraph noRandom [fact ''x_0'' ''p'' ''x''])) = 1"
    using node_count_buildGraph [of noRandom "[fact ''x_0'' ''p'' ''x'']"]
    by (simp add: objectKeys_single) (simp add: fact_def)
  then show ?thesis
    by (simp add: graphBuildEffect_length_nodes graphBuildEffect_edges edgeList_buildGraph
        tripletEdge_def objectId_def toString_digit digitChar_def)
      (simp add: fact_def)
qed

text \<open>
  C5. The claim is that an empty fact list yields empty node and edge sets, also when the
  batch changes from a non-empty list to the empty one. The effect returns before any
  state is set: the state is returned as it was, and the graph built from \<open>(A, p, x)\<close>
  is still there after the batch has become empty.
\<close>

theorem empty_batch_keeps_previous_graph:
  "graphBuildEffect rnd [] st = st
   \<and> length (allNodes (graphBuildEffect noRandom []
        (graphBuildEffect noRandom [fact ''A'' ''p'' ''x''] (initialState blankStore)))) = 2
   \<and> length (allEdges (graphBuildEffect noRandom []
        (graphBuildEffect noRandom [fact ''A'' ''p'' ''x''] (initialState blankStore)))) = 1"
proof -
  have empty: "\<And>rnd st. graphBuildEffect rnd [] st = st"
    by (simp add: graphBuildEffect_def)
  have "length (nodeMap (buildGraph noRandom [fact ''A'' ''p'' ''x''])) = 2"
    using node_count_buildGraph [of noRandom "[fact ''A'' ''p'' ''x'']"]
    by (simp add: objectKeys_single) (simp add: fact_def)
  then show ?thesis
    by (simp add: empty graphBuildEffect_length_nodes graphBuildEffect_edges edgeList_buildGraph)
qed

text \<open>
  C9, as stated: the edge label is the text after the last \<open>/\<close> when the predicate is
  URI-shaped and the whole predicate when it is not. The build effect never tests the
  shape (the test of \<open>shortenUri\<close> is not used there): \<open>a/b\<close> is not URI-shaped and is
  labelled \<open>b\<close>, and \<open>http://a/\<close> is URI-shaped, has nothing after its last \<open>/\<close>, and
  is labelled with the whole string.
\<close>

theorem edge_label_ignores_uri_shape:
  "\<not> isHttpUri ''a/b''
   \<and> edge_label (allEdges (graphBuildEffect noRandom [fact ''s'' ''a/b'' ''o'']
        (initialState blankStore)) ! 0) \<noteq> ''a/b''
   \<and> isHttpUri ''http://a/''
   \<and> edge_label (allEdges (graphBuildEffect noRandom [fact ''s'' ''http://a/'' ''o'']
        (initialState blankStore)) ! 0)
       \<noteq> rev (takeWhile (\<lambda>c. c \<noteq> CHR ''/'') (rev ''http://a/''))"
  by (simp add: isHttpUri_def graphBuildEffect_edges edgeList_buildGraph tripletEdge_def
      lastSegment_eq fact_def)

text \<open>
  C9, amended: for every fact of a non-empty batch, the label of its edge is the text
  after the last \<open>/\<close> of the predicate when that text is not empty (the whole predicate
  when it has no \<open>/\<close>), and the whole predicate when that text is empty; the key
  \<open>edge_predicate\<close> is the predicate itself.
\<close>

theorem edge_label_and_key:
  "i < length ts \<Longrightarrow>
     edge_label (allEdges (graphBuildEffect rnd ts st) ! i)
       = (let seg = rev (takeWhile (\<lambda>c. c \<noteq> CHR ''/'') (rev (predicate (ts ! i))))
          in if seg = [] then predicate (ts ! i) else seg)
     \<and> edge_predicate (allEdges (graphBuildEffect rnd ts st) ! i) = predicate (ts ! i)"
proof -
  assume i: "i < length ts"
  then have "ts \<noteq> []" by auto
  then have "allEdges (graphBuildEffect rnd ts st) ! i = tripletEdge (ts ! i) i"
    using i by (simp add: graphBuildEffect_edges edgeList_buildGraph)
  then show ?thesis
    by (simp add: tripletEdge_def lastSegment_eq)
qed

theorem edge_label_and_key_witness:
  "(0::nat) < length [fact ''s'' ''http://xmlns.com/foaf/0.1/name'' ''o'']
   \<and> edge_label (allEdges (graphBuildEffect noRandom
         [fact ''s'' ''http://xmlns.com/foaf/0.1/name'' ''o''] (initialState blankStore)) ! 0)
       = ''name''
   \<and> edge_predicate (allEdges (graphBuildEffect noRandom
         [fact ''s'' ''http://xmlns.com/foaf/0.1/name'' ''o''] (initialState blankStore)) ! 0)
       = ''http://xmlns.com/foaf/0.1/name''"
  using edge_label_and_key [of 0 "[fact ''s'' ''http://xmlns.com/foaf/0.1/name'' ''o'']"
      noRandom "initialState blankStore"]
  by (simp add: fact_def)

text \<open>
  C10. In the graph built from a non-empty batch, every node of type object belongs to a
  fact \<open>i\<close>: its id is the object key of that fact, and its label is the object string
  when that has at most 20 characters and its first 20 characters followed by \<open>...\<close>
  otherwise, so at most 23 characters. Such a node exists for every fact whose object key
  is not the subject of that fact or of an earlier one.
\<close>

theorem object_node_label:
  assumes "ts \<noteq> []"
  shows "(\<forall>n \<in> set (allNodes (graphBuildEffect rnd ts st)).
            node_type (heap (graphBuildEffect rnd ts st) n) = Object \<longrightarrow>
            length (node_label (heap (graphBuildEffect rnd ts st) n)) \<le> 23 \<and>
            (\<exists>i<length ts.
               node_id (heap (graphBuildEffect rnd ts st) n) = objectId (object (ts ! i)) i \<and>
               node_label (heap (graphBuildEffect rnd ts st) n)
                 = (if length (object (ts ! i)) \<le> 20 then object (ts ! i)
                    else take 20 (object (ts ! i)) @ ''...'')))
       \<and> (\<forall>i<length ts.
            objectId (object (ts ! i)) i \<notin> subject ` set (take (Suc i) ts) \<longrightarrow>
            (\<exists>n \<in> set (allNodes (graphBuildEffect rnd ts st)).
               node_type (heap (graphBuildEffect rnd ts st) n) = Object \<and>
               node_id (heap (graphBuildEffect rnd ts st) n) = objectId (object (ts ! i)) i \<and>
               node_label (heap (graphBuildEffect rnd ts st) n)
                 = (if length (object (ts ! i)) \<le> 20 then object (ts ! i)
                    else take 20 (object (ts ! i)) @ ''...'')))"
proof (intro conjI ballI allI impI)
  let ?st = "graphBuildEffect rnd ts st"
  note img = heap_image_graphBuildEffect [OF assms, of rnd st]
  {
    fix n
    assume n: "n \<in> set (allNodes ?st)" and ty: "node_type (heap ?st n) = Object"
    from n have "heap ?st n \<in> snd ` set (nodeMap (buildGraph rnd ts))"
      unfolding img [symmetric] by (rule imageI)
    then obtain e where e: "e \<in> set (nodeMap (buildGraph rnd ts))" and he: "heap ?st n = snd e"
      by auto
    from object_entries_buildGraph [OF e] ty he
    obtain i where i: "i < length ts" and core: "nodeCore e = objectCore (ts ! i) i"
      by auto
    from core he have id: "node_id (heap ?st n) = objectId (object (ts ! i)) i"
      and lab: "node_label (heap ?st n) = objectLabel (object (ts ! i))"
      by (simp_all add: nodeCore_def objectCore_def)
    show "length (node_label (heap ?st n)) \<le> 23"
      unfolding lab by (rule length_objectLabel)
    show "\<exists>i<length ts.
               node_id (heap ?st n) = objectId (object (ts ! i)) i \<and>
               node_label (heap ?st n)
                 = (if length (object (ts ! i)) \<le> 20 then object (ts ! i)
                    else take 20 (object (ts ! i)) @ ''...'')"
      using i id lab by (auto simp: objectLabel_def)
  }
  {
    fix i
    assume i: "i < length ts"
      and free: "objectId (object (ts ! i)) i \<notin> subject ` set (take (Suc i) ts)"
    from object_entry_created [of i ts rnd] i free
    obtain e where e: "e \<in> set (nodeMap (buildGraph rnd ts))"
      and core: "nodeCore e = objectCore (ts ! i) i"
      by (auto simp: keyAt_def)
    from e have "snd e \<in> heap ?st ` set (allNodes ?st)"
      unfolding img by (rule imageI)
    then obtain n where n: "n \<in> set (allNodes ?st)" and he: "heap ?st n = snd e"
      by auto
    from core he have "node_type (heap ?st n) = Object \<and>
               node_id (heap ?st n) = objectId (object (ts ! i)) i \<and>
               node_label (heap ?st n) = objectLabel (object (ts ! i))"
      by (simp add: nodeCore_def objectCore_def)
    with n show "\<exists>n \<in> set (allNodes ?st).
               node_type (heap ?st n) = Object \<and>
               node_id (heap ?st n) = objectId (object (ts ! i)) i \<and>
               node_label (heap ?st n)
                 = (if length (object (ts ! i)) \<le> 20 then object (ts ! i)
                    else take 20 (object (ts ! i)) @ ''...'')"
      by (auto simp: objectLabel_def)
  }
qed


theorem object_node_label_witness:
  "[fact ''A'' ''p'' ''x''] \<noteq> []
   \<and> (\<exists>n \<in> set (allNodes (graphBuildEffect noRandom [fact ''A'' ''p'' ''x''] (initialState blankStore))).
        node_type (heap (graphBuildEffect noRandom [fact ''A'' ''p'' ''x''] (initialState blankStore)) n) = Object
        \<and> node_id (heap (graphBuildEffect noRandom [fact ''A'' ''p'' ''x''] (initialState blankStore)) n) = ''x_0''
        \<and> node_label (heap (graphBuildEffect noRandom [fact ''A'' ''p'' ''x''] (initialState blankStore)) n) = ''x'')"
  using object_node_label [of "[fact ''A'' ''p'' ''x'']" noRandom "initialState blankStore"]
  by (simp add: fact_def objectId_def toString_digit digitChar_def)

section \<open>Facts about the layouts\<close>

lemma repositions_forEachIndexed:
  "repositions (forEachIndexed (\<lambda>n i. setPosition n (px i) (py i)) ns k) (set ns)"
proof (induction ns arbitrary: k)
  case Nil
  show ?case by (simp add: repositions_def)
next
  case (Cons x xs)
  let ?T = "forEachIndexed (\<lambda>n i. setPosition n (px i) (py i)) xs (Suc k)"
  have IH: "repositions ?T (set xs)" by (rule Cons.IH)
  show ?case
    unfolding repositions_def
  proof (intro conjI ballI allI impI)
    fix r assume r: "r \<in> set (x # xs)"
    show "\<exists>a b. \<forall>h. forEachIndexed (\<lambda>n i. setPosition n (px i) (py i)) (x # xs) k h r
            = (h r)\<lparr>node_x := a, node_y := b\<rparr>"
    proof (cases "r \<in> set xs")
      case True
      with IH obtain a b where ab: "\<And>h. ?T h r = (h r)\<lparr>node_x := a, node_y := b\<rparr>"
        unfolding repositions_def by blast
      show ?thesis
        by - (rule exI [of _ a], rule exI [of _ b], simp add: ab setPosition_def)
    next
      case False
      with IH have same: "\<And>h. ?T h r = h r"
        unfolding repositions_def by blast
      from False r have rx: "r = x" by simp
      from same have same_x: "\<And>h. ?T h x = h x"
        unfolding rx .
      show ?thesis
        unfolding rx
        by (rule exI [of _ "px k"], rule exI [of _ "py k"], simp add: same_x, simp add: setPosition_def)
    qed
  next
    fix r h assume "r \<notin> set (x # xs)"
    then have "r \<noteq> x" and "r \<notin> set xs" by auto
    with IH show "forEachIndexed (\<lambda>n i. setPosition n (px i) (py i)) (x # xs) k h r = h r"
      unfolding repositions_def by (simp add: setPosition_def)
  qed
qed

lemma repositions_comp:
  assumes "repositions T1 S1" and "repositions T2 S2"
  shows "repositions (\<lambda>h. T2 (T1 h)) (S1 \<union> S2)"
  unfolding repositions_def
proof (intro conjI ballI allI impI)
  fix r assume r: "r \<in> S1 \<union> S2"
  show "\<exists>a b. \<forall>h. T2 (T1 h) r = (h r)\<lparr>node_x := a, node_y := b\<rparr>"
  proof (cases "r \<in> S2")
    case in2: True
    with assms(2) obtain a b where ab: "\<And>h. T2 h r = (h r)\<lparr>node_x := a, node_y := b\<rparr>"
      unfolding repositions_def by blast
    show ?thesis
    proof (cases "r \<in> S1")
      case True
      with assms(1) obtain c d where cd: "\<And>h. T1 h r = (h r)\<lparr>node_x := c, node_y := d\<rparr>"
        unfolding repositions_def by blast
      show ?thesis
        by - (rule exI [of _ a], rule exI [of _ b], simp add: ab cd)
    next
      case False
      with assms(1) have "\<And>h. T1 h r = h r"
        unfolding repositions_def by blast
      then show ?thesis
        by - (rule exI [of _ a], rule exI [of _ b], simp add: ab)
    qed
  next
    case False
    with assms(2) have same: "\<And>h. T2 h r = h r"
      unfolding repositions_def by blast
    from False r have "r \<in> S1" by simp
    with assms(1) obtain c d where cd: "\<And>h. T1 h r = (h r)\<lparr>node_x := c, node_y := d\<rparr>"
      unfolding repositions_def by blast
    show ?thesis
      by - (rule exI [of _ c], rule exI [of _ d], simp add: same cd)
  qed
next
  fix r h assume "r \<notin> S1 \<union> S2"
  with assms show "T2 (T1 h) r = h r"
    unfolding repositions_def by simp
qed

lemma repositions_fields:
  assumes "repositions T S"
  shows "\<exists>a b. T h r = (h r)\<lparr>node_x := a, node_y := b\<rparr>"
proof (cases "r \<in> S")
  case True
  with assms show ?thesis unfolding repositions_def by blast
next
  case False
  with assms have "T h r = h r" unfolding repositions_def by blast
  then show ?thesis
    by - (rule exI [of _ "node_x (h r)"], rule exI [of _ "node_y (h r)"], simp)
qed

lemma repositions_idem:
  assumes "repositions T S"
  shows "T (T h) = T h"
proof (rule ext)
  fix r
  show "T (T h) r = T h r"
  proof (cases "r \<in> S")
    case True
    with assms obtain a b where ab: "\<And>h. T h r = (h r)\<lparr>node_x := a, node_y := b\<rparr>"
      unfolding repositions_def by blast
    have "T (T h) r = (T h r)\<lparr>node_x := a, node_y := b\<rparr>" by (rule ab)
    also have "\<dots> = T h r" by (simp add: ab [of h])
    finally show ?thesis .
  next
    case False
    with assms show ?thesis unfolding repositions_def by simp
  qed
qed

lemma repositions_independent:
  assumes "repositions T S" and "r \<in> S"
  shows "node_x (T h1 r) = node_x (T h2 r) \<and> node_y (T h1 r) = node_y (T h2 r)"
proof -
  from assms obtain a b where ab: "\<And>h. T h r = (h r)\<lparr>node_x := a, node_y := b\<rparr>"
    unfolding repositions_def by blast
  show ?thesis by (simp add: ab)
qed

lemma forEachIndexed_setPosition_nth:
  "distinct ns \<Longrightarrow> i < length ns \<Longrightarrow>
     forEachIndexed (\<lambda>n i. setPosition n (px i) (py i)) ns k h (ns ! i)
       = (h (ns ! i))\<lparr>node_x := px (k + i), node_y := py (k + i)\<rparr>"
proof (induction ns arbitrary: k h i)
  case Nil
  then show ?case by simp
next
  case (Cons x xs)
  let ?F = "forEachIndexed (\<lambda>n i. setPosition n (px i) (py i))"
  let ?h = "setPosition x (px k) (py k) h"
  have unfold: "\<And>r. ?F (x # xs) k h r = ?F xs (Suc k) ?h r"
    by simp
  show ?case
  proof (cases i)
    case 0
    have "x \<notin> set xs" using Cons.prems(1) by simp
    with repositions_forEachIndexed [of px py xs "Suc k"]
    have frame: "\<And>h. ?F xs (Suc k) h x = h x"
      unfolding repositions_def by blast
    have "?F (x # xs) k h x = ?h x"
      by (simp only: unfold frame)
    also have "\<dots> = (h x)\<lparr>node_x := px k, node_y := py k\<rparr>"
      by (simp add: setPosition_def)
    finally show ?thesis using 0 by simp
  next
    case (Suc j)
    with Cons.prems have j: "j < length xs" and d: "distinct xs" and ne: "xs ! j \<noteq> x"
      by auto
    have "?F (x # xs) k h (xs ! j) = ?F xs (Suc k) ?h (xs ! j)"
      by (rule unfold)
    also have "\<dots> = (?h (xs ! j))\<lparr>node_x := px (Suc k + j), node_y := py (Suc k + j)\<rparr>"
      by (rule Cons.IH [OF d j])
    also have "\<dots> = (h (xs ! j))\<lparr>node_x := px (k + Suc j), node_y := py (k + Suc j)\<rparr>"
      using ne by (simp add: setPosition_def)
    finally show ?thesis using Suc by simp
  qed
qed

lemma applyLayout_layoutOn:
  "applyLayout h ns es lt =
     layoutOn lt ns (filter (\<lambda>n. node_type (h n) = Subject) ns)
       (filter (\<lambda>n. node_type (h n) = Object) ns) h"
  by (cases lt) (simp_all add: applyLayout_def layoutOn_def Let_def)

lemma subject_or_object:
  "set (filter (\<lambda>n. node_type (h n) = Subject) ns) \<union> set (filter (\<lambda>n. node_type (h n) = Object) ns)
     = set ns"
proof -
  have "\<And>n. node_type (h n) = Subject \<or> node_type (h n) = Object"
    by (metis NodeType.exhaust)
  then show ?thesis by auto
qed

lemma repositions_layoutOn:
  assumes "lt \<noteq> Force" and "set subjects \<union> set objects = set ns"
  shows "repositions (layoutOn lt ns subjects objects) (set ns)"
proof (cases lt)
  case Force
  with assms show ?thesis by simp
next
  case Circular
  then show ?thesis
    unfolding layoutOn_def by (simp add: repositions_forEachIndexed)
next
  case Grid
  then show ?thesis
    unfolding layoutOn_def by (simp add: repositions_forEachIndexed)
next
  case Hierarchical
  have "repositions
     (\<lambda>h. forEachIndexed
            (\<lambda>node index. setPosition node (real ((index * 100) mod 400) + 50) 300) objects 0
            (forEachIndexed
               (\<lambda>node index. setPosition node (real ((index * 100) mod 400) + 50) 100)
               subjects 0 h))
     (set subjects \<union> set objects)"
    by (rule repositions_comp) (rule repositions_forEachIndexed)+
  with Hierarchical assms(2) show ?thesis
    unfolding layoutOn_def by simp
qed

lemma applyLayout_fields:
  "\<exists>a b. applyLayout h ns es lt r = (h r)\<lparr>node_x := a, node_y := b\<rparr>"
proof (cases "lt = Force")
  case True
  then show ?thesis
    by - (rule exI [of _ "node_x (h r)"], rule exI [of _ "node_y (h r)"], simp add: applyLayout_def)
next
  case False
  show ?thesis
    unfolding applyLayout_layoutOn
    by (rule repositions_fields [OF repositions_layoutOn [OF False subject_or_object]])
qed

lemma applyLayout_outside: "r \<notin> set ns \<Longrightarrow> applyLayout h ns es lt r = h r"
proof (cases "lt = Force")
  case True
  then show ?thesis by (simp add: applyLayout_def)
next
  case False
  assume "r \<notin> set ns"
  with repositions_layoutOn [OF False subject_or_object] show ?thesis
    unfolding applyLayout_layoutOn repositions_def by blast
qed

lemma applyLayout_node_type: "node_type (applyLayout h ns es lt r) = node_type (h r)"
  using applyLayout_fields [of h ns es lt r] by auto

lemma applyLayout_node_id: "node_id (applyLayout h ns es lt r) = node_id (h r)"
  using applyLayout_fields [of h ns es lt r] by auto

lemma applyLayout_connections: "connections (applyLayout h ns es lt r) = connections (h r)"
  using applyLayout_fields [of h ns es lt r] by auto

lemma applyLayout_same_types:
  assumes "\<forall>r \<in> set ns. node_type (h' r) = node_type (h r)"
  shows "applyLayout h' ns es' lt =
     layoutOn lt ns (filter (\<lambda>n. node_type (h n) = Subject) ns)
       (filter (\<lambda>n. node_type (h n) = Object) ns) h'"
proof -
  have "filter (\<lambda>n. node_type (h' n) = Subject) ns = filter (\<lambda>n. node_type (h n) = Subject) ns"
    and "filter (\<lambda>n. node_type (h' n) = Object) ns = filter (\<lambda>n. node_type (h n) = Object) ns"
    using assms by (auto intro: filter_cong)
  then show ?thesis by (simp add: applyLayout_layoutOn)
qed

section \<open>Facts about the filter effect\<close>

subsection \<open>The sort\<close>

lemma insert_js_byConnections:
  "insert_js (byConnections h) x ys = insort_key (\<lambda>r. - int (connections (h r))) x ys"
  by (induction ys) (simp_all add: byConnections_def)

lemma sort_js_byConnections:
  "sort_js (byConnections h) xs = sort_key (\<lambda>r. - int (connections (h r))) xs"
proof -
  have "insert_js (byConnections h) = insort_key (\<lambda>r. - int (connections (h r)))"
    by (intro ext) (rule insert_js_byConnections)
  then show ?thesis by (simp add: sort_js_def sort_key_def)
qed

lemma mset_sort_js: "mset (sort_js (byConnections h) xs) = mset xs"
  by (simp add: sort_js_byConnections)

lemma sorted_sort_js:
  "sorted_wrt (\<lambda>a b. connections (h a) \<ge> connections (h b)) (sort_js (byConnections h) xs)"
proof -
  have "sorted (map (\<lambda>r. - int (connections (h r))) (sort_js (byConnections h) xs))"
    unfolding sort_js_byConnections by (rule sorted_sort_key)
  then show ?thesis by (simp add: sorted_map)
qed

lemma stable_sort_js:
  "filter (\<lambda>n. connections (h n) = c) (sort_js (byConnections h) xs)
     = filter (\<lambda>n. connections (h n) = c) xs"
proof -
  have eq: "(\<lambda>n. connections (h n) = c) = (\<lambda>n. - int (connections (h n)) = - int c)"
    by auto
  show ?thesis
    unfolding sort_js_byConnections eq by (rule sort_key_stable)
qed

subsection \<open>Edges and their endpoints\<close>

lemma passingEdges_endpoints:
  assumes "e \<in> set (passingEdges st)"
  shows "hasNodeId (heap st) (passingNodes st) (source e)"
    and "hasNodeId (heap st) (passingNodes st) (target e)"
  using assms by (auto simp: passingEdges_def edgePasses_def split: if_splits)

lemma passingEdges_connected:
  assumes "e \<in> set (passingEdges st)"
  shows "source e \<in> connectedNodeIds (passingEdges st)"
    and "target e \<in> connectedNodeIds (passingEdges st)"
  using assms by (auto simp: connectedNodeIds_def)

lemma survivingNodes_endpoints:
  assumes "e \<in> set (passingEdges st)"
  shows "hasNodeId (heap st) (survivingNodes st) (source e)"
    and "hasNodeId (heap st) (survivingNodes st) (target e)"
  using passingEdges_endpoints [OF assms] passingEdges_connected [OF assms]
  by (auto simp: survivingNodes_def hasNodeId_def)

lemma cappedEdges_endpoints:
  assumes "e \<in> set (cappedEdges st)"
  shows "hasNodeId (heap st) (cappedNodes st) (source e)"
    and "hasNodeId (heap st) (cappedNodes st) (target e)"
proof -
  show "hasNodeId (heap st) (cappedNodes st) (source e)"
  proof (cases "length (survivingNodes st) > maxNodes (filters st)")
    case True
    with assms show ?thesis
      by (auto simp: cappedEdges_def hasNodeId_def Let_def)
  next
    case False
    with assms have "e \<in> set (passingEdges st)" and "cappedNodes st = survivingNodes st"
      by (simp_all add: cappedEdges_def cappedNodes_def)
    then show ?thesis by (simp add: survivingNodes_endpoints)
  qed
  show "hasNodeId (heap st) (cappedNodes st) (target e)"
  proof (cases "length (survivingNodes st) > maxNodes (filters st)")
    case True
    with assms show ?thesis
      by (auto simp: cappedEdges_def hasNodeId_def Let_def)
  next
    case False
    with assms have "e \<in> set (passingEdges st)" and "cappedNodes st = survivingNodes st"
      by (simp_all add: cappedEdges_def cappedNodes_def)
    then show ?thesis by (simp add: survivingNodes_endpoints)
  qed
qed

lemma filterEffect_fields:
  "visibleNodes (filterEffect st) = cappedNodes st"
  "visibleEdges (filterEffect st) = cappedEdges st"
  "heap (filterEffect st) =
     applyLayout (heap st) (cappedNodes st) (cappedEdges st) (layoutType (filters st))"
  "allNodes (filterEffect st) = allNodes st"
  "allEdges (filterEffect st) = allEdges st"
  "filters (filterEffect st) = filters st"
  by (simp_all add: filterEffect_def)

lemma distinct_cappedNodes: "distinct (allNodes st) \<Longrightarrow> distinct (cappedNodes st)"
  by (simp add: cappedNodes_def survivingNodes_def passingNodes_def sort_js_byConnections)

section \<open>The claims about the filter effect\<close>

text \<open>
  C2. Every edge the filter effect makes visible has a visible node with the id of its
  source and a visible node with the id of its target, whatever the criteria.
\<close>

theorem no_dangling_edges:
  "\<forall>e \<in> set (visibleEdges (filterEffect st)).
     (\<exists>n \<in> set (visibleNodes (filterEffect st)). node_id (heap (filterEffect st) n) = source e) \<and>
     (\<exists>n \<in> set (visibleNodes (filterEffect st)). node_id (heap (filterEffect st) n) = target e)"
proof
  fix e
  assume "e \<in> set (visibleEdges (filterEffect st))"
  then have "e \<in> set (cappedEdges st)"
    by (simp add: filterEffect_fields)
  from cappedEdges_endpoints [OF this] show
    "(\<exists>n \<in> set (visibleNodes (filterEffect st)). node_id (heap (filterEffect st) n) = source e) \<and>
     (\<exists>n \<in> set (visibleNodes (filterEffect st)). node_id (heap (filterEffect st) n) = target e)"
    by (simp add: filterEffect_fields applyLayout_node_id hasNodeId_def)
qed

text \<open>
  C4. The filter effect never shows more than \<open>maxNodes\<close> nodes. When more nodes survive
  the filters, the visible nodes are the first \<open>maxNodes\<close> of the surviving nodes put in
  descending order of \<open>connections\<close>, nodes of equal \<open>connections\<close> staying in their
  original order, and the visible edges are the passing edges with both endpoints among
  the visible nodes.
\<close>

theorem node_cap:
  "length (visibleNodes (filterEffect st)) \<le> maxNodes (filters st)
   \<and> (length (survivingNodes st) > maxNodes (filters st) \<longrightarrow>
        (\<exists>dropped.
           length (visibleNodes (filterEffect st)) = maxNodes (filters st)
           \<and> mset (visibleNodes (filterEffect st) @ dropped) = mset (survivingNodes st)
           \<and> sorted_wrt (\<lambda>a b. connections (heap st a) \<ge> connections (heap st b))
                (visibleNodes (filterEffect st) @ dropped)
           \<and> (\<forall>c. filter (\<lambda>n. connections (heap st n) = c) (visibleNodes (filterEffect st) @ dropped)
                  = filter (\<lambda>n. connections (heap st n) = c) (survivingNodes st)))
        \<and> visibleEdges (filterEffect st)
            = filter (\<lambda>e. source e \<in> (\<lambda>n. node_id (heap st n)) ` set (visibleNodes (filterEffect st))
                         \<and> target e \<in> (\<lambda>n. node_id (heap st n)) ` set (visibleNodes (filterEffect st)))
                (passingEdges st))"
proof (intro conjI impI)
  show "length (visibleNodes (filterEffect st)) \<le> maxNodes (filters st)"
    by (simp add: filterEffect_fields cappedNodes_def)
next
  assume binds: "length (survivingNodes st) > maxNodes (filters st)"
  let ?sorted = "sort_js (byConnections (heap st)) (survivingNodes st)"
  have vis: "visibleNodes (filterEffect st) = take (maxNodes (filters st)) ?sorted"
    using binds by (simp add: filterEffect_fields cappedNodes_def)
  have whole: "visibleNodes (filterEffect st) @ drop (maxNodes (filters st)) ?sorted = ?sorted"
    unfolding vis by simp
  have len: "length ?sorted = length (survivingNodes st)"
    using mset_sort_js [of "heap st" "survivingNodes st"] by (metis size_mset)
  show "\<exists>dropped.
           length (visibleNodes (filterEffect st)) = maxNodes (filters st)
           \<and> mset (visibleNodes (filterEffect st) @ dropped) = mset (survivingNodes st)
           \<and> sorted_wrt (\<lambda>a b. connections (heap st a) \<ge> connections (heap st b))
                (visibleNodes (filterEffect st) @ dropped)
           \<and> (\<forall>c. filter (\<lambda>n. connections (heap st n) = c) (visibleNodes (filterEffect st) @ dropped)
                  = filter (\<lambda>n. connections (heap st n) = c) (survivingNodes st))"
  proof (rule exI [of _ "drop (maxNodes (filters st)) ?sorted"], intro conjI allI)
    show "length (visibleNodes (filterEffect st)) = maxNodes (filters st)"
      unfolding vis using binds len by simp
    show "mset (visibleNodes (filterEffect st) @ drop (maxNodes (filters st)) ?sorted)
            = mset (survivingNodes st)"
      unfolding whole by (rule mset_sort_js)
    show "sorted_wrt (\<lambda>a b. connections (heap st a) \<ge> connections (heap st b))
            (visibleNodes (filterEffect st) @ drop (maxNodes (filters st)) ?sorted)"
      unfolding whole by (rule sorted_sort_js)
    fix c
    show "filter (\<lambda>n. connections (heap st n) = c)
            (visibleNodes (filterEffect st) @ drop (maxNodes (filters st)) ?sorted)
          = filter (\<lambda>n. connections (heap st n) = c) (survivingNodes st)"
      unfolding whole by (rule stable_sort_js)
  qed
  show "visibleEdges (filterEffect st)
            = filter (\<lambda>e. source e \<in> (\<lambda>n. node_id (heap st n)) ` set (visibleNodes (filterEffect st))
                         \<and> target e \<in> (\<lambda>n. node_id (heap st n)) ` set (visibleNodes (filterEffect st)))
                (passingEdges st)"
    using binds by (simp add: filterEffect_fields cappedEdges_def Let_def)
qed

lemma capState_cappedNodes: "cappedNodes capState = [0, 1]"
  by code_simp

lemma capState_cappedEdges: "cappedEdges capState = [mkEdge ''A'' ''x_0'' ''p1'']"
  by code_simp

lemma capState_survivingNodes: "survivingNodes capState = [0, 1, 2, 3, 4]"
  by code_simp

lemma capState_nodes: "map (heap capState) [0, 1, 2, 3, 4] =
     [mkNode ''A'' ''A'' Subject 2 ''p1'', mkNode ''x_0'' ''x'' Object 1 ''p1'',
      mkNode ''y_1'' ''y'' Object 1 ''p2'', mkNode ''B'' ''B'' Subject 1 ''p1'',
      mkNode ''x_2'' ''x'' Object 1 ''p1'']"
  by code_simp

lemma capState_filters: "maxNodes (filters capState) = 2" "layoutType (filters capState) = Circular"
  by code_simp+

lemma builtState_filters: "layoutType (filters builtState) = Force"
  by code_simp


lemma capState_allNodes: "allNodes capState = [0, 1, 2, 3, 4]"
  by code_simp

lemma circular_position:
  assumes "distinct ns" and "i < length ns"
  shows "applyLayout h ns es Circular (ns ! i) =
     (h (ns ! i))\<lparr>node_x := 200 + 150 * cos ((2 * pi * real i) / real (length ns)),
                  node_y := 200 + 150 * sin ((2 * pi * real i) / real (length ns))\<rparr>"
  using forEachIndexed_setPosition_nth [OF assms,
      of "\<lambda>index. 200 + 150 * cos ((2 * pi * real index) / real (length ns))"
         "\<lambda>index. 200 + 150 * sin ((2 * pi * real index) / real (length ns))" 0 h]
  by (simp add: applyLayout_def Let_def)

lemma capState_first_node:
  "node_x (heap capState 0) = 0" "node_y (heap capState 0) = 0"
  using capState_nodes by (simp_all add: mkNode_def)

lemma capState_moved:
  "node_x (heap (filterEffect capState) 0) = 350"
  using circular_position [of "[0, 1]" 0 "heap capState" "cappedEdges capState"]
  by (simp add: filterEffect_fields capState_cappedNodes capState_filters)

theorem no_dangling_edges_witness:
  "visibleEdges (filterEffect capState) = [mkEdge ''A'' ''x_0'' ''p1'']
   \<and> (\<exists>n \<in> set (visibleNodes (filterEffect capState)).
         node_id (heap (filterEffect capState) n) = ''A'')
   \<and> (\<exists>n \<in> set (visibleNodes (filterEffect capState)).
         node_id (heap (filterEffect capState) n) = ''x_0'')"
  using no_dangling_edges [of capState]
  by (simp add: filterEffect_fields capState_cappedEdges mkEdge_def)

theorem node_cap_witness:
  "length (survivingNodes capState) > maxNodes (filters capState)
   \<and> visibleNodes (filterEffect capState) = [0, 1]
   \<and> length (visibleNodes (filterEffect capState)) \<le> maxNodes (filters capState)
   \<and> visibleEdges (filterEffect capState)
        = filter (\<lambda>e. source e \<in> (\<lambda>n. node_id (heap capState n)) ` set (visibleNodes (filterEffect capState))
                     \<and> target e \<in> (\<lambda>n. node_id (heap capState n)) ` set (visibleNodes (filterEffect capState)))
            (passingEdges capState)"
  using node_cap [of capState]
  by (simp add: capState_survivingNodes capState_filters filterEffect_fields capState_cappedNodes)

text \<open>
  C3, as stated: the filter effect never changes a field of a node it was given. The
  effect ends by applying the layout to the visible nodes, which are the very objects of
  \<open>allNodes\<close>: with the circular layout the first node of the scenario graph, built at
  \<open>(0, 0)\<close>, is at \<open>x = 350\<close> afterwards.
\<close>

theorem filter_moves_input_nodes:
  "0 \<in> set (allNodes capState)
   \<and> node_x (heap capState 0) = 0
   \<and> node_x (heap (filterEffect capState) 0) = 350"
  by (simp add: capState_allNodes capState_first_node capState_moved)

text \<open>
  C3, amended: the filter effect leaves the arrays \<open>allNodes\<close> and \<open>allEdges\<close> and the
  criteria as they are, and changes no field of any node other than the position
  \<open>(x, y)\<close>; it changes no node outside the visible ones, and none at all under the force
  layout.
\<close>

theorem filter_frame:
  "allNodes (filterEffect st) = allNodes st
   \<and> allEdges (filterEffect st) = allEdges st
   \<and> filters (filterEffect st) = filters st
   \<and> (\<forall>r. \<exists>a b. heap (filterEffect st) r = (heap st r)\<lparr>node_x := a, node_y := b\<rparr>)
   \<and> (\<forall>r. r \<notin> set (visibleNodes (filterEffect st)) \<longrightarrow> heap (filterEffect st) r = heap st r)
   \<and> (layoutType (filters st) = Force \<longrightarrow> heap (filterEffect st) = heap st)"
  by (simp add: filterEffect_fields applyLayout_fields applyLayout_outside)
    (simp add: applyLayout_def)

theorem filter_frame_witness:
  "4 \<notin> set (visibleNodes (filterEffect capState))
   \<and> heap (filterEffect capState) 4 = heap capState 4
   \<and> layoutType (filters builtState) = Force
   \<and> heap (filterEffect builtState) = heap builtState"
  using filter_frame [of capState] filter_frame [of builtState]
  by (simp add: filterEffect_fields capState_cappedNodes builtState_filters)

section \<open>The claim about the layouts\<close>

text \<open>
  C6. For the circular, grid and hierarchical layouts: applying the layout to its own
  result changes nothing; the positions given to the nodes of the list depend only on
  the ordered list and the types of its nodes, not on the positions, the edges or anything
  else in the store; and the circular layout puts the \<open>i\<close>-th of \<open>N\<close> nodes at angle
  \<open>2\<pi>i/N\<close> on the circle of radius 150 around \<open>(200, 200)\<close>.
\<close>

theorem layout_deterministic:
  assumes "lt \<noteq> Force"
  shows "applyLayout (applyLayout h ns es lt) ns es lt = applyLayout h ns es lt
    \<and> ((\<forall>r \<in> set ns. node_type (h1 r) = node_type (h2 r)) \<longrightarrow>
         (\<forall>r \<in> set ns.
            node_x (applyLayout h1 ns es1 lt r) = node_x (applyLayout h2 ns es2 lt r) \<and>
            node_y (applyLayout h1 ns es1 lt r) = node_y (applyLayout h2 ns es2 lt r)))
    \<and> (distinct ns \<and> i < length ns \<longrightarrow>
         node_x (applyLayout h ns es Circular (ns ! i))
           = 200 + 150 * cos (2 * pi * real i / real (length ns)) \<and>
         node_y (applyLayout h ns es Circular (ns ! i))
           = 200 + 150 * sin (2 * pi * real i / real (length ns)))"
proof (intro conjI impI ballI)
  let ?T = "\<lambda>h0. layoutOn lt ns (filter (\<lambda>n. node_type (h0 n) = Subject) ns)
       (filter (\<lambda>n. node_type (h0 n) = Object) ns)"
  have rep: "\<And>h0. repositions (?T h0) (set ns)"
    by (rule repositions_layoutOn [OF assms subject_or_object])
  show "applyLayout (applyLayout h ns es lt) ns es lt = applyLayout h ns es lt"
  proof -
    have "applyLayout (applyLayout h ns es lt) ns es lt = ?T h (applyLayout h ns es lt)"
      by (rule applyLayout_same_types) (simp add: applyLayout_node_type)
    also have "\<dots> = ?T h (?T h h)"
      by (simp only: applyLayout_layoutOn)
    also have "\<dots> = ?T h h"
      by (rule repositions_idem [OF rep])
    finally show ?thesis
      by (simp only: applyLayout_layoutOn)
  qed
next
  fix r
  assume types: "\<forall>r \<in> set ns. node_type (h1 r) = node_type (h2 r)" and r: "r \<in> set ns"
  let ?T = "layoutOn lt ns (filter (\<lambda>n. node_type (h2 n) = Subject) ns)
       (filter (\<lambda>n. node_type (h2 n) = Object) ns)"
  have rep: "repositions ?T (set ns)"
    by (rule repositions_layoutOn [OF assms subject_or_object])
  have one: "applyLayout h1 ns es1 lt = ?T h1"
    by (rule applyLayout_same_types [OF types])
  have two: "applyLayout h2 ns es2 lt = ?T h2"
    by (rule applyLayout_layoutOn)
  from repositions_independent [OF rep r, of h1 h2]
  show "node_x (applyLayout h1 ns es1 lt r) = node_x (applyLayout h2 ns es2 lt r)"
    and "node_y (applyLayout h1 ns es1 lt r) = node_y (applyLayout h2 ns es2 lt r)"
    unfolding one two by simp_all
next
  assume "distinct ns \<and> i < length ns"
  then have "applyLayout h ns es Circular (ns ! i) =
     (h (ns ! i))\<lparr>node_x := 200 + 150 * cos ((2 * pi * real i) / real (length ns)),
                  node_y := 200 + 150 * sin ((2 * pi * real i) / real (length ns))\<rparr>"
    by (simp add: circular_position)
  then show "node_x (applyLayout h ns es Circular (ns ! i))
           = 200 + 150 * cos (2 * pi * real i / real (length ns))"
    and "node_y (applyLayout h ns es Circular (ns ! i))
           = 200 + 150 * sin (2 * pi * real i / real (length ns))"
    by simp_all
qed

theorem layout_deterministic_witness:
  "Circular \<noteq> Force
   \<and> distinct [0, 1 :: nat] \<and> (1 :: nat) < length [0, 1 :: nat]
   \<and> node_type (blankStore 0) = node_type (setPosition 1 5 7 blankStore 0)
   \<and> node_type (blankStore 1) = node_type (setPosition 1 5 7 blankStore 1)
   \<and> node_x (applyLayout blankStore [0, 1] [] Circular 1) = 50
   \<and> node_y (applyLayout blankStore [0, 1] [] Circular 1) = 200
   \<and> node_x (applyLayout (setPosition 1 5 7 blankStore) [0, 1] [] Circular 1) = 50"
  using layout_deterministic [where lt = Circular and h = blankStore and ns = "[0, 1]"
      and es = "[]" and ?h1.0 = blankStore and ?h2.0 = "setPosition 1 5 7 blankStore"
      and ?es1.0 = "[]" and ?es2.0 = "[]" and i = 1]
  by (simp add: setPosition_def)

section \<open>Facts about the force simulation\<close>

lemma js_div_Some: "b \<noteq> 0 \<Longrightarrow> js_div a b = Some (a / b)"
  by (simp add: js_div_def)

lemma forEachM_invariant:
  assumes "I s"
    and "\<And>x s. x \<in> set xs \<Longrightarrow> I s \<Longrightarrow> \<exists>s'. f x s = Some s' \<and> I s'"
  shows "\<exists>s'. forEachM f xs s = Some s' \<and> I s'"
  using assms
proof (induction xs arbitrary: s)
  case Nil
  then show ?case by simp
next
  case (Cons x xs)
  from Cons.prems(2) [of x s] Cons.prems(1)
  obtain s1 where s1: "f x s = Some s1" and I1: "I s1"
    by auto
  have "\<exists>s'. forEachM f xs s1 = Some s' \<and> I s'"
    by (rule Cons.IH [OF I1]) (simp add: Cons.prems(2))
  with s1 show ?case by simp
qed

lemma repel_total:
  assumes "hasVelocity h node"
  shows "\<exists>h'. repel node other h = Some h' \<and> hasVelocity h' node"
proof -
  from assms obtain vx vy where v: "node_vx (h node) = Some vx" "node_vy (h node) = Some vy"
    by (auto simp: hasVelocity_def)
  define dx where "dx = node_x (h node) - node_x (h other)"
  define dy where "dy = node_y (h node) - node_y (h other)"
  define distance where "distance = sqrt (dx * dx + dy * dy)"
  show ?thesis
  proof (cases "node_id (h node) \<noteq> node_id (h other) \<and> distance < 100 \<and> distance > 0")
    case True
    then have nz: "distance \<noteq> 0" "distance * distance \<noteq> 0"
      by simp_all
    have "repel node other h =
        Some (h(node := (h node)\<lparr>node_vx := Some (vx + dx / distance * (50 / (distance * distance))),
                                  node_vy := Some (vy + dy / distance * (50 / (distance * distance)))\<rparr>))"
      using True nz unfolding repel_def Let_def dx_def [symmetric] dy_def [symmetric]
        distance_def [symmetric]
      by (simp only: js_div_def v if_True if_False bind.bind_lunit simp_thms)
    then show ?thesis
      by (simp add: hasVelocity_def)
  next
    case False
    then have "repel node other h = Some h"
      unfolding repel_def Let_def dx_def [symmetric] dy_def [symmetric] distance_def [symmetric]
      by auto
    with assms show ?thesis by simp
  qed
qed

lemma repulsion_total:
  assumes "hasVelocity h node"
  shows "\<exists>h'. forEachM (repel node) nodes h = Some h'"
proof -
  have "\<exists>h'. forEachM (repel node) nodes h = Some h' \<and> hasVelocity h' node"
    using assms
    by (rule forEachM_invariant [where I = "\<lambda>s. hasVelocity s node"]) (rule repel_total)
  then show ?thesis by blast
qed

lemma applyForces_total: "\<exists>h'. applyForces nodes node h = Some h'"
  unfolding applyForces_def Let_def
  by (rule repulsion_total) (simp add: hasVelocity_def)

lemma attract_pair_total:
  "\<exists>h'. (let dx = node_x (h t) - node_x (h s);
             dy = node_y (h t) - node_y (h s);
             distance = sqrt (dx * dx + dy * dy)
         in if distance > 0 then
              do {
                ux \<leftarrow> js_div dx distance;
                uy \<leftarrow> js_div dy distance;
                Some (F ux uy)
              }
            else Some h) = Some h'"
proof -
  define dx where "dx = node_x (h t) - node_x (h s)"
  define dy where "dy = node_y (h t) - node_y (h s)"
  define distance where "distance = sqrt (dx * dx + dy * dy)"
  show ?thesis
    unfolding Let_def dx_def [symmetric] dy_def [symmetric] distance_def [symmetric]
    by (cases "distance > 0") (simp_all add: js_div_def)
qed

lemma attract_total: "\<exists>h'. attract nodes edge h = Some h'"
proof (cases "find (\<lambda>n. node_id (h n) = source edge) nodes")
  case None
  then show ?thesis by (simp add: attract_def)
next
  case src: (Some s)
  show ?thesis
  proof (cases "find (\<lambda>n. node_id (h n) = target edge) nodes")
    case None
    with src show ?thesis by (simp add: attract_def)
  next
    case (Some t)
    with src show ?thesis
      unfolding attract_def
      by (simp only: prod.case option.case) (rule attract_pair_total)
  qed
qed

lemma forces_total: "\<exists>h'. forEachM (applyForces nodes) ns h = Some h'"
  using forEachM_invariant [of "\<lambda>_. True" h ns "applyForces nodes"]
  by (simp add: applyForces_total)

lemma attractions_total: "\<exists>h'. forEachM (attract nodes) es h = Some h'"
  using forEachM_invariant [of "\<lambda>_. True" h es "attract nodes"]
  by (simp add: attract_total)

lemma onCanvas_integrate: "m = n \<or> onCanvas h n \<Longrightarrow> onCanvas (integrate m h) n"
  by (auto simp: onCanvas_def integrate_def)

lemma onCanvas_fold_kept: "onCanvas h n \<Longrightarrow> onCanvas (fold integrate ns h) n"
  by (induction ns arbitrary: h) (simp_all add: onCanvas_integrate)

lemma onCanvas_fold: "n \<in> set ns \<Longrightarrow> onCanvas (fold integrate ns h) n"
proof (induction ns arbitrary: h)
  case Nil
  then show ?case by simp
next
  case (Cons m ns)
  show ?case
  proof (cases "n = m")
    case True
    then have "onCanvas (integrate m h) n"
      by (simp add: onCanvas_integrate)
    then show ?thesis
      by (simp add: onCanvas_fold_kept)
  next
    case False
    with Cons show ?thesis by simp
  qed
qed

section \<open>The claim about the force simulation\<close>

text \<open>
  C7. When the layout is the force layout and the animation runs, one call of
  \<open>runForceSimulation\<close> completes without dividing by zero (the repulsion and attraction
  terms are skipped at distance zero), and afterwards every visible node lies within the
  canvas bounds \<open>[20, 380]\<close> in both coordinates.
\<close>

theorem force_tick_on_canvas:
  assumes "layoutType (filters st) = Force" and "isAnimating st"
  shows "\<exists>st'. runForceSimulation st = Some st' \<and> visibleNodes st' = visibleNodes st \<and>
           (\<forall>n \<in> set (visibleNodes st').
              20 \<le> node_x (heap st' n) \<and> node_x (heap st' n) \<le> 380 \<and>
              20 \<le> node_y (heap st' n) \<and> node_y (heap st' n) \<le> 380)"
proof -
  obtain h1 where h1: "forEachM (applyForces (visibleNodes st)) (visibleNodes st) (heap st) = Some h1"
    using forces_total by blast
  obtain h2 where h2: "forEachM (attract (visibleNodes st)) (visibleEdges st) h1 = Some h2"
    using attractions_total by blast
  let ?st' = "st\<lparr>heap := fold integrate (visibleNodes st) h2, visibleNodes := visibleNodes st\<rparr>"
  have run: "runForceSimulation st = Some ?st'"
    using assms by (simp add: runForceSimulation_def Let_def h1 h2)
  have "\<forall>n \<in> set (visibleNodes ?st'). onCanvas (heap ?st') n"
    by (simp add: onCanvas_fold)
  then show ?thesis
    unfolding run onCanvas_def by simp
qed

lemma builtState_cappedNodes: "cappedNodes builtState = [0, 1, 2, 3, 4]"
  by code_simp

lemma builtState_positions:
  "map (\<lambda>n. (node_x (heap builtState n), node_y (heap builtState n))) [0, 1, 2, 3, 4]
     = [(0, 0), (0, 0), (0, 0), (0, 0), (0, 0)]"
  by code_simp

lemma forceState_eval:
  "layoutType (filters forceState) = Force"
  "isAnimating forceState"
  "visibleNodes forceState = [0, 1, 2, 3, 4]"
  "heap forceState = heap builtState"
  by (simp_all add: forceState_def filterEffect_fields builtState_filters builtState_cappedNodes
      applyLayout_def)

theorem force_tick_on_canvas_witness:
  "layoutType (filters forceState) = Force \<and> isAnimating forceState
   \<and> visibleNodes forceState = [0, 1, 2, 3, 4]
   \<and> node_x (heap forceState 0) = node_x (heap forceState 1)
   \<and> node_y (heap forceState 0) = node_y (heap forceState 1)
   \<and> (\<exists>st'. runForceSimulation forceState = Some st' \<and> visibleNodes st' = [0, 1, 2, 3, 4] \<and>
         (\<forall>n \<in> set (visibleNodes st').
            20 \<le> node_x (heap st' n) \<and> node_x (heap st' n) \<le> 380 \<and>
            20 \<le> node_y (heap st' n) \<and> node_y (heap st' n) \<le> 380))"
  using force_tick_on_canvas [of forceState] builtState_positions
  by (simp add: forceState_eval)

section \<open>Facts about zooming\<close>

lemma zoomIn_funpow:
  assumes "0 < s" and "s * 1.2 ^ k \<le> 3"
  shows "(zoomIn ^^ k) s = s * 1.2 ^ k"
  using assms(2)
proof (induction k)
  case 0
  show ?case by simp
next
  case (Suc k)
  have "s * 1.2 ^ k \<le> s * 1.2 ^ Suc k"
    using assms(1) by simp
  with Suc.prems have "s * 1.2 ^ k \<le> 3" by linarith
  with Suc.IH have "(zoomIn ^^ k) s = s * 1.2 ^ k" by simp
  then have "(zoomIn ^^ Suc k) s = zoomIn (s * 1.2 ^ k)"
    by simp
  also have "\<dots> = s * 1.2 ^ Suc k"
    using Suc.prems by (simp add: zoomIn_def min_def)
  finally show ?case .
qed

lemma zoomOut_funpow:
  assumes "0.3 \<le> s"
  shows "(zoomOut ^^ k) (s * 1.2 ^ k) = s"
proof (induction k)
  case 0
  show ?case by simp
next
  case (Suc k)
  have "s \<le> s * 1.2 ^ k"
    using assms by (simp add: mult_le_cancel_left1)
  with assms have ge: "0.3 \<le> s * 1.2 ^ k" by linarith
  have "zoomOut (s * 1.2 ^ Suc k) = s * 1.2 ^ k"
    using ge by (simp add: zoomOut_def)
  then show ?case
    using Suc.IH by (simp only: funpow_Suc_right comp_apply)
qed

section \<open>The claim about zooming\<close>

text \<open>
  C8, as stated: from any scale in \<open>[0.3, 3]\<close>, \<open>k\<close> zoom-in steps followed by \<open>k\<close>
  zoom-out steps give the scale back up to rounding. At scale 3 the zoom-in step is cut
  off at 3, and the zoom-out step then leaves 2.5.
\<close>

theorem zoom_round_trip_fails_at_upper_bound:
  "(0.3 :: real) \<le> 3 \<and> (3 :: real) \<le> 3
   \<and> \<bar>(zoomOut ^^ 1) ((zoomIn ^^ 1) 3) - 3\<bar> = 1 / 2"
  by (simp add: zoomIn_def zoomOut_def)

text \<open>
  C8, amended: from a scale \<open>s \<ge> 0.3\<close>, \<open>k\<close> zoom-in steps followed by \<open>k\<close> zoom-out
  steps give back \<open>s\<close> whenever the zoom-in steps stay below the upper bound, that is
  \<open>s \<cdot> 1.2\<^sup>k \<le> 3\<close> (exactly, in real arithmetic).
\<close>

theorem zoom_round_trip:
  assumes "0.3 \<le> s" and "s * 1.2 ^ k \<le> 3"
  shows "(zoomOut ^^ k) ((zoomIn ^^ k) s) = s"
proof -
  from assms(1) have "0 < s" by simp
  then have "(zoomIn ^^ k) s = s * 1.2 ^ k"
    using assms(2) by (rule zoomIn_funpow)
  then show ?thesis
    by (simp only: zoomOut_funpow [OF assms(1)])
qed

theorem zoom_round_trip_witness:
  "(0.3 :: real) \<le> 1 \<and> (1 :: real) * 1.2 ^ 2 \<le> 3 \<and> (zoomOut ^^ 2) ((zoomIn ^^ 2) 1) = 1"
  using zoom_round_trip [of 1 2]
  by (simp add: power2_eq_square)

end
